theory Spec2Isabelle
  imports Complex_Main "HOL-Library.AList" "HOL-Library.Char_ord" "HOL-Library.List_Lexorder"
begin

section \<open>Records of the download archive\<close>

text \<open>
  A downloaded article, as \<^verbatim>\<open>download.parse\<close> builds it
  (\<^verbatim>\<open>ArxivArticle(created=..., title=..., abstract=..., sentences=..., url=...)\<close>)
  and as the JSON lines of the download folders hold it. \<open>created\<close> is a timestamp
  string; Python compares such strings lexicographically by code point, which is the order
  of \<open>string\<close> here.
\<close>

record article =
  created :: string
  title :: string
  abstract :: string
  sentences :: "string list"
  url :: string

section \<open>Deduplicator\<close>

text \<open>
  Modelled from the spec: \<^verbatim>\<open>dedup_stream\<close> of \<^verbatim>\<open>frontpage/utils.py\<close>, which
  \<^verbatim>\<open>datastream.py\<close> imports and calls as \<^verbatim>\<open>dedup_stream(stream, key="abstract")\<close>.
  The spec (4.1): it emits each record the first time its key value is seen; all
  subsequent records sharing that key value are dropped. \<open>seen\<close> holds the key values met
  so far; the key selector \<open>key\<close> stands for the field name.
\<close>

fun dedup_from :: "'k list \<Rightarrow> 'a list \<Rightarrow> ('a \<Rightarrow> 'k) \<Rightarrow> 'a list" where
  "dedup_from seen [] key = []"
| "dedup_from seen (ex # stream) key =
     (if key ex \<in> set seen then dedup_from seen stream key
      else ex # dedup_from (key ex # seen) stream key)"

definition dedup_stream :: "'a list \<Rightarrow> ('a \<Rightarrow> 'k) \<Rightarrow> 'a list" where
  "dedup_stream stream key = dedup_from [] stream key"

text \<open>A stream is newest-first when \<open>created\<close> never increases along it.\<close>

definition newest_first :: "article list \<Rightarrow> bool" where
  "newest_first stream = sorted_wrt (\<lambda>a b. created b \<le> created a) stream"


section \<open>Partitioned archive writer\<close>

text \<open>
  \<^verbatim>\<open>LazyLines.nest_by\<close> (library \<^verbatim>\<open>lazylines\<close>): the rows are grouped by the value of
  the nesting key, the groups stand in the order in which their key value first
  appears, and each group is \<^verbatim>\<open>{key: value, "subset": rows}\<close> where the rows of the
  subset have lost the nesting key (that is why \<^verbatim>\<open>save_clean_download_stream\<close> puts
  \<^verbatim>\<open>created\<close> back into every row of a subset). A group is the pair of its key value
  and its subset; \<open>key\<close> reads the nesting key of a row and \<open>rest\<close> removes it.
\<close>

fun nest_add :: "'k \<Rightarrow> 'b \<Rightarrow> ('k \<times> 'b list) list \<Rightarrow> ('k \<times> 'b list) list" where
  "nest_add k row [] = [(k, [row])]"
| "nest_add k row ((k', rows) # groups) =
     (if k = k' then (k', rows @ [row]) # groups else (k', rows) # nest_add k row groups)"

definition nest_by :: "('a \<Rightarrow> 'k) \<Rightarrow> ('a \<Rightarrow> 'b) \<Rightarrow> 'a list \<Rightarrow> ('k \<times> 'b list) list" where
  "nest_by key rest stream = foldl (\<lambda>groups ex. nest_add (key ex) (rest ex) groups) [] stream"

text \<open>An article without its \<^verbatim>\<open>created\<close> key: a row of a subset nested by \<^verbatim>\<open>created\<close>.\<close>

record undated =
  u_title :: string
  u_abstract :: string
  u_sentences :: "string list"
  u_url :: string

definition drop_created :: "article \<Rightarrow> undated" where
  "drop_created d =
     \<lparr>u_title = title d, u_abstract = abstract d, u_sentences = sentences d, u_url = url d\<rparr>"

text \<open>\<^verbatim>\<open>{**ex, "created": day}\<close> for a row \<open>ex\<close> of a subset.\<close>

definition with_created :: "undated \<Rightarrow> string \<Rightarrow> article" where
  "with_created ex day =
     \<lparr>created = day, title = u_title ex, abstract = u_abstract ex,
      sentences = u_sentences ex, url = u_url ex\<rparr>"

text \<open>
  A folder maps a file name to the bytes of the file. \<^verbatim>\<open>srsly.write_jsonl(path, lines)\<close>
  opens the file for writing, so whatever it held is replaced, and writes one line per
  record; \<open>dumps\<close> is the JSON serialiser of one record, a function of its fields.
\<close>

type_synonym folder = "string \<rightharpoonup> string"

definition jsonl :: "('r \<Rightarrow> string) \<Rightarrow> 'r list \<Rightarrow> string" where
  "jsonl dumps lines = concat (map (\<lambda>line. dumps line @ [CHR 0x0A]) lines)"

definition write_jsonl :: "('r \<Rightarrow> string) \<Rightarrow> string \<Rightarrow> 'r list \<Rightarrow> folder \<Rightarrow> folder" where
  "write_jsonl dumps filepath lines fs = fs(filepath \<mapsto> jsonl dumps lines)"

text \<open>
  \<^verbatim>\<open>save_clean_download_stream\<close>: \<open>raw\<close> is what \<^verbatim>\<open>get_raw_download_stream\<close> reads from
  the download folder, \<open>clean\<close> the content of \<^verbatim>\<open>CLEAN_DOWNLOADS_FOLDER\<close> before the
  run; the result is its content afterwards.
\<close>

definition save_clean_download_stream ::
    "(article \<Rightarrow> string) \<Rightarrow> article list \<Rightarrow> folder \<Rightarrow> folder" where
  "save_clean_download_stream dumps raw clean =
     (let stream = dedup_stream raw abstract;
          nested = nest_by created drop_created
                     (map (\<lambda>d. d\<lparr>created := take 10 (created d)\<rparr>) stream)
      in foldl (\<lambda>fs (day, rows).
                  write_jsonl dumps (day @ ''.jsonl'')
                    (map (\<lambda>ex. with_created ex day) rows) fs)
           clean nested)"

section \<open>Training data\<close>

text \<open>
  The rows of the annotation files and of the training stream are JSON objects with keys
  that depend on the data (a label is a key), so they are dictionaries: association
  lists in insertion order, written with \<open>AList.update\<close>, which replaces the value of a
  key that is there and appends a new key, as a Python dict does.
\<close>

datatype json = JNull | JStr string | JNum int | JObj "(string \<times> json) list"

type_synonym dict = "(string \<times> json) list"

datatype error = KeyError | MissingFile

text \<open>An annotation record \<^verbatim>\<open>{"text": ..., "label": ..., "answer": ...}\<close>.\<close>

record annotation =
  a_text :: string
  a_label :: string
  a_answer :: string

text \<open>\<^verbatim>\<open>_sentence_data_to_train_format\<close>: the row it yields is the dict display
  \<^verbatim>\<open>{"text": ex["text"], ex["label"]: outcome}\<close>, whose second entry replaces the first
  when the label is the string \<^verbatim>\<open>text\<close>.\<close>

definition outcome_of :: "string \<Rightarrow> int option" where
  "outcome_of answer =
     (let outcome = None;
          outcome = (if answer = ''accept'' then Some 1 else outcome);
          outcome = (if answer = ''reject'' then Some 0 else outcome)
      in outcome)"

fun sentence_data_to_train_format :: "annotation list \<Rightarrow> dict list" where
  "sentence_data_to_train_format [] = []"
| "sentence_data_to_train_format (ex # stream) =
     (case outcome_of (a_answer ex) of
        None \<Rightarrow> sentence_data_to_train_format stream
      | Some outcome \<Rightarrow>
          AList.update (a_label ex) (JNum outcome) [(''text'', JStr (a_text ex))]
            # sentence_data_to_train_format stream)"

text \<open>The value of a key, \<open>JNull\<close> when the row has no such key.\<close>

definition field :: "string \<Rightarrow> dict \<Rightarrow> json" where
  "field k ex = (case map_of ex k of None \<Rightarrow> JNull | Some v \<Rightarrow> v)"

text \<open>\<^verbatim>\<open>{k: v for ex in d['subset'] for k, v in ex.items()}\<close>\<close>

definition merge_rows :: "dict list \<Rightarrow> dict" where
  "merge_rows rows = foldl (\<lambda>d (k, v). AList.update k v d) [] (concat rows)"

text \<open>
  \<^verbatim>\<open>_accumulate_train_stream\<close>: \<^verbatim>\<open>nest_by("text")\<close>, then the \<^verbatim>\<open>categories\<close> of each
  group are computed from its subset and the subset is dropped. Every row that
  \<^verbatim>\<open>_sentence_data_to_train_format\<close> yields has the key \<^verbatim>\<open>text\<close>.
\<close>

definition accumulate_train_stream :: "dict list \<Rightarrow> dict list" where
  "accumulate_train_stream stream =
     map (\<lambda>(t, rows). [(''text'', t), (''categories'', JObj (merge_rows rows))])
       (nest_by (field ''text'') (AList.delete ''text'') stream)"

text \<open>
  \<^verbatim>\<open>get_train_stream\<close>, which the \<^verbatim>\<open>train\<close> and \<^verbatim>\<open>pretrain\<close> commands call. \<open>annot\<close> is the
  annotation folder: the rows of each file, by file name. A file that is not there makes
  \<^verbatim>\<open>srsly.read_jsonl\<close> raise.
\<close>

definition cats_shim :: "dict \<Rightarrow> dict" where
  "cats_shim ex =
     (if map_of ex ''categories'' = None \<and> map_of ex ''cats'' \<noteq> None
      then AList.update ''categories'' (field ''cats'' ex) ex else ex)"

fun get_train_stream_from ::
    "dict list \<Rightarrow> string list \<Rightarrow> (string \<rightharpoonup> dict list) \<Rightarrow> error + dict list" where
  "get_train_stream_from examples [] annot = Inr examples"
| "get_train_stream_from examples (label # labels) annot =
     (case annot (label @ ''.jsonl'') of
        None \<Rightarrow> Inl MissingFile
      | Some rows \<Rightarrow> get_train_stream_from (examples @ map cats_shim rows) labels annot)"

definition get_train_stream :: "string list \<Rightarrow> (string \<rightharpoonup> dict list) \<Rightarrow> error + dict list" where
  "get_train_stream LABELS annot = get_train_stream_from [] LABELS annot"

text \<open>
  What the spec (4.4) asks of the accumulator for a text and a label: the outcome of the
  last annotation of that text with that label whose answer is \<^verbatim>\<open>accept\<close> or
  \<^verbatim>\<open>reject\<close>, 1 for \<^verbatim>\<open>accept\<close> and 0 for \<^verbatim>\<open>reject\<close>; nothing when there is none.
\<close>

definition last_outcome :: "annotation list \<Rightarrow> string \<Rightarrow> string \<Rightarrow> int option" where
  "last_outcome stream t l =
     (case filter (\<lambda>ex. a_text ex = t \<and> a_label ex = l
                         \<and> (a_answer ex = ''accept'' \<or> a_answer ex = ''reject'')) stream of
        [] \<Rightarrow> None
      | judged \<Rightarrow> Some (if a_answer (last judged) = ''accept'' then 1 else 0))"

section \<open>Section assignment\<close>

text \<open>
  The prediction for one sentence is a dictionary from label to probability, in the
  order of \<^verbatim>\<open>preds.items()\<close>. A probability is a Python float; only its comparison
  with a threshold is used, so it is a real number here.
\<close>

type_synonym pred = "(string \<times> real) list"

text \<open>An article with the key \<^verbatim>\<open>preds\<close> that \<^verbatim>\<open>add_predictions\<close> gives it.\<close>

record scored = article +
  preds :: "pred list"

text \<open>
  Modelled from the spec: \<^verbatim>\<open>add_predictions\<close> of \<^verbatim>\<open>frontpage/utils.py\<close>, piped over the
  stream with the trained model. The spec (4.5 and 6): the prediction is computed per
  sentence, \<^verbatim>\<open>predict_batch(sentences)\<close> giving an ordered sequence of label-probability
  mappings, and \<^verbatim>\<open>preds\<close> on the record is this sequence. The classifier is the
  parameter \<open>model\<close>.
\<close>

definition add_predictions :: "(string list \<Rightarrow> pred list) \<Rightarrow> article list \<Rightarrow> scored list" where
  "add_predictions model stream =
     map (\<lambda>ex. \<lparr>created = created ex, title = title ex, abstract = abstract ex,
                 sentences = sentences ex, url = url ex, preds = model (sentences ex)\<rparr>) stream"

text \<open>
  \<^verbatim>\<open>upper_limit\<close> changes the records of the stream in place and yields the same record
  once per section it gains, so the list that \<^verbatim>\<open>collect()\<close> builds holds one dict object
  several times. A record is identified by its position in the stream; the state of the
  loop is the \<^verbatim>\<open>tracker\<close>, the \<^verbatim>\<open>sections\<close> key of every record (\<open>None\<close> while the
  record has no such key) and the records yielded so far. The stream is a generator:
  \<^verbatim>\<open>for ex in stream\<close> takes one record from it at a time, and only then do the stages
  before \<^verbatim>\<open>upper_limit\<close> read and score that record. \<open>taken\<close> holds the positions of the
  records that the loop has taken from the stream.
\<close>

record assignment =
  tracker :: "string \<rightharpoonup> nat"
  sections_of :: "nat \<rightharpoonup> string list"
  yielded :: "(nat \<times> scored) list"
  taken :: "nat list"

definition limit :: nat where
  "limit = 50"

text \<open>
  The body of the innermost loop, for the record \<open>ex\<close> at position \<open>i\<close>.
  \<^verbatim>\<open>THRESHOLDS[name]\<close> is read once \<^verbatim>\<open>name in tracker\<close> holds and before the counter is
  compared with the limit; a label without a threshold raises \<^verbatim>\<open>KeyError\<close>.
  \<^verbatim>\<open>list(set(...))\<close> leaves the order of the sections to the hash of the strings;
  \<open>remdups\<close> fixes one order, and nothing below depends on it.
\<close>

definition visit ::
    "(string \<rightharpoonup> real) \<Rightarrow> nat \<Rightarrow> scored \<Rightarrow> string \<times> real \<Rightarrow> assignment \<Rightarrow> error + assignment" where
  "visit THRESHOLDS i ex item st =
     (case item of (name, proba) \<Rightarrow>
        (case tracker st name of
           None \<Rightarrow> Inr st
         | Some count \<Rightarrow>
             (case THRESHOLDS name of
                None \<Rightarrow> Inl KeyError
              | Some threshold \<Rightarrow>
                  if proba > threshold \<and> count < limit
                  then Inr (st\<lparr>tracker := (tracker st)(name \<mapsto> count + 1),
                               sections_of := (sections_of st)(i \<mapsto>
                                 remdups ((case sections_of st i of None \<Rightarrow> [] | Some secs \<Rightarrow> secs)
                                          @ [name])),
                               yielded := yielded st @ [(i, ex)]\<rparr>)
                  else Inr st)))"

text \<open>\<^verbatim>\<open>for name, proba in preds.items()\<close>\<close>

fun scan_items ::
    "(string \<rightharpoonup> real) \<Rightarrow> nat \<Rightarrow> scored \<Rightarrow> pred \<Rightarrow> assignment \<Rightarrow> error + assignment" where
  "scan_items THRESHOLDS i ex [] st = Inr st"
| "scan_items THRESHOLDS i ex (item # items) st =
     (case visit THRESHOLDS i ex item st of
        Inl e \<Rightarrow> Inl e
      | Inr st' \<Rightarrow> scan_items THRESHOLDS i ex items st')"

text \<open>\<^verbatim>\<open>for preds in ex['preds']\<close>\<close>

fun scan_preds ::
    "(string \<rightharpoonup> real) \<Rightarrow> nat \<Rightarrow> scored \<Rightarrow> pred list \<Rightarrow> assignment \<Rightarrow> error + assignment" where
  "scan_preds THRESHOLDS i ex [] st = Inr st"
| "scan_preds THRESHOLDS i ex (p # ps) st =
     (case scan_items THRESHOLDS i ex p st of
        Inl e \<Rightarrow> Inl e
      | Inr st' \<Rightarrow> scan_preds THRESHOLDS i ex ps st')"

text \<open>\<^verbatim>\<open>all(v == limit for v in tracker.values())\<close>; the keys of the tracker are the labels.\<close>

definition all_full :: "string list \<Rightarrow> assignment \<Rightarrow> bool" where
  "all_full LABELS st = (\<forall>lab \<in> set LABELS. tracker st lab = Some limit)"

text \<open>
  \<^verbatim>\<open>for ex in stream\<close>, with the \<^verbatim>\<open>break\<close>; \<open>i\<close> is the position of the next record.
  An iteration takes the record at \<open>i\<close> from the stream and scans it; after the
  \<^verbatim>\<open>break\<close> nothing more is taken.
\<close>

fun upper_limit_loop ::
    "string list \<Rightarrow> (string \<rightharpoonup> real) \<Rightarrow> nat \<Rightarrow> scored list \<Rightarrow> assignment \<Rightarrow> error + assignment" where
  "upper_limit_loop LABELS THRESHOLDS i [] st = Inr st"
| "upper_limit_loop LABELS THRESHOLDS i (ex # stream) st =
     (case scan_preds THRESHOLDS i ex (preds ex) (st\<lparr>taken := taken st @ [i]\<rparr>) of
        Inl e \<Rightarrow> Inl e
      | Inr st' \<Rightarrow>
          if all_full LABELS st' then Inr st'
          else upper_limit_loop LABELS THRESHOLDS (Suc i) stream st')"

text \<open>\<^verbatim>\<open>tracker = {lab: 0 for lab in LABELS}\<close>; no record has sections, nothing is yielded
  and nothing is taken.\<close>

definition start :: "string list \<Rightarrow> assignment" where
  "start LABELS =
     \<lparr>tracker = (\<lambda>lab. if lab \<in> set LABELS then Some 0 else None),
      sections_of = Map.empty, yielded = [], taken = []\<rparr>"

definition upper_limit_run ::
    "string list \<Rightarrow> (string \<rightharpoonup> real) \<Rightarrow> scored list \<Rightarrow> error + assignment" where
  "upper_limit_run LABELS THRESHOLDS stream =
     upper_limit_loop LABELS THRESHOLDS 0 stream (start LABELS)"

text \<open>
  A record as the collected list shows it: with the \<^verbatim>\<open>sections\<close> it has when the loop
  has ended. The list pairs each entry with the position of its record in the stream,
  which tells one dict object from another with the same content.
\<close>

record item = scored +
  sections :: "string list"

definition collected :: "assignment \<Rightarrow> nat \<times> scored \<Rightarrow> nat \<times> item" where
  "collected st entry =
     (case entry of (i, ex) \<Rightarrow>
        (i, \<lparr>created = created ex, title = title ex, abstract = abstract ex,
             sentences = sentences ex, url = url ex, preds = preds ex,
             sections = (case sections_of st i of None \<Rightarrow> [] | Some secs \<Rightarrow> secs)\<rparr>))"

definition upper_limit ::
    "string list \<Rightarrow> (string \<rightharpoonup> real) \<Rightarrow> scored list \<Rightarrow> error + (nat \<times> item) list" where
  "upper_limit LABELS THRESHOLDS stream =
     (case upper_limit_run LABELS THRESHOLDS stream of
        Inl e \<Rightarrow> Inl e
      | Inr st \<Rightarrow> Inr (map (collected st) (yielded st)))"

text \<open>
  \<^verbatim>\<open>get_site_stream\<close>: \<open>clean\<close> is the clean download stream; \<^verbatim>\<open>LazyLines.head(1000)\<close>
  keeps its first 1000 records.
\<close>

definition get_site_stream ::
    "string list \<Rightarrow> (string \<rightharpoonup> real) \<Rightarrow> (string list \<Rightarrow> pred list) \<Rightarrow> article list
       \<Rightarrow> error + (nat \<times> item) list" where
  "get_site_stream LABELS THRESHOLDS model clean =
     upper_limit LABELS THRESHOLDS (add_predictions model (take 1000 clean))"

text \<open>The records of a result that carry a label, each counted once.\<close>

definition carrying :: "string \<Rightarrow> (nat \<times> item) list \<Rightarrow> nat list" where
  "carrying l out = remdups (map fst (filter (\<lambda>(i, it). l \<in> set (sections it)) out))"

subsection \<open>What the loop maintains\<close>

text \<open>A label qualifies for a record when one of its sentences gives the label a
  probability strictly above the threshold of the label.\<close>

definition qualifies :: "(string \<rightharpoonup> real) \<Rightarrow> pred list \<Rightarrow> string \<Rightarrow> bool" where
  "qualifies THRESHOLDS ps l =
     (case THRESHOLDS l of
        None \<Rightarrow> False
      | Some threshold \<Rightarrow>
          list_ex (\<lambda>p. list_ex (\<lambda>(name, proba). name = l \<and> threshold < proba) p) ps)"

text \<open>The sections of the record at a position, as a set.\<close>

definition secs_at :: "assignment \<Rightarrow> nat \<Rightarrow> string set" where
  "secs_at st i = (case sections_of st i of None \<Rightarrow> {} | Some secs \<Rightarrow> set secs)"

text \<open>
  The invariant of the loop over the stream \<open>whole\<close>: the keys of the tracker are the
  labels; a counter is at most the limit and at least the number of records that carry
  its label; a record carries only labels that qualify for it; what is yielded is a
  record of the stream at its position, and it has sections.
\<close>

definition maintained ::
    "string list \<Rightarrow> (string \<rightharpoonup> real) \<Rightarrow> scored list \<Rightarrow> assignment \<Rightarrow> bool" where
  "maintained LABELS THRESHOLDS whole st \<longleftrightarrow>
     dom (tracker st) = set LABELS \<and>
     finite (dom (sections_of st)) \<and>
     (\<forall>l count. tracker st l = Some count \<longrightarrow>
        count \<le> limit \<and> card {i. l \<in> secs_at st i} \<le> count) \<and>
     (\<forall>i l. l \<in> secs_at st i \<longrightarrow>
        l \<in> set LABELS \<and> i < length whole \<and> qualifies THRESHOLDS (preds (whole ! i)) l) \<and>
     (\<forall>(i, ex) \<in> set (yielded st).
        i < length whole \<and> whole ! i = ex \<and> sections_of st i \<noteq> None)"

text \<open>A record without the predictions for names that are no labels, and what a run
  leaves apart from the content of the records: counters, sections and the positions
  yielded.\<close>

definition strip_unknown :: "string list \<Rightarrow> scored \<Rightarrow> scored" where
  "strip_unknown LABELS ex =
     ex\<lparr>preds := map (filter (\<lambda>(name, proba). name \<in> set LABELS)) (preds ex)\<rparr>"

definition summary :: "assignment \<Rightarrow> (string \<rightharpoonup> nat) \<times> (nat \<rightharpoonup> string list) \<times> nat list" where
  "summary st = (tracker st, sections_of st, map fst (yielded st))"

section \<open>Content assembler\<close>

text \<open>An entry of a section: a copy of a record with its \<^verbatim>\<open>html\<close> and \<^verbatim>\<open>categories\<close>.\<close>

record entry = item +
  html :: string
  categories :: dict











section \<open>Sample inputs\<close>

text \<open>Two downloads of one paper, the scenario of the spec (section 8).\<close>

definition paper_x_new :: article where
  "paper_x_new =
     \<lparr>created = ''2024-01-02'', title = ''X'', abstract = ''Paper X...'',
      sentences = [], url = ''a''\<rparr>"

definition paper_x_old :: article where
  "paper_x_old =
     \<lparr>created = ''2024-01-01'', title = ''X'', abstract = ''Paper X...'',
      sentences = [], url = ''b''\<rparr>"

text \<open>A third download, and a serialiser that shows the title and the date of a record.\<close>

definition paper_y :: article where
  "paper_y =
     \<lparr>created = ''2024-01-02 09:30:00'', title = ''Y'', abstract = ''Paper Y'',
      sentences = [''Paper Y''], url = ''c''\<rparr>"

definition title_and_date :: "article \<Rightarrow> string" where
  "title_and_date d = title d @ '' '' @ created d"

text \<open>
  A site with two sections and a classifier that knows three sentences; it also predicts
  a name that is no label. Three records of a clean stream.
\<close>

definition toy_labels :: "string list" where
  "toy_labels = [''cs.LG'', ''cs.CL'']"

definition toy_thresholds :: "string \<rightharpoonup> real" where
  "toy_thresholds = [''cs.LG'' \<mapsto> 0.5, ''cs.CL'' \<mapsto> 0.5]"

definition toy_model :: "string list \<Rightarrow> pred list" where
  "toy_model sents =
     map (\<lambda>sent. if sent = ''deep nets'' then [(''cs.LG'', 0.9), (''cs.CL'', 0.6), (''math'', 1)]
                  else if sent = ''parsing'' then [(''cs.LG'', 0.5), (''cs.CL'', 0.7), (''math'', 1)]
                  else [(''cs.LG'', 0.1), (''cs.CL'', 0.2), (''math'', 1)]) sents"

definition paper_a :: article where
  "paper_a =
     \<lparr>created = ''2024-01-03'', title = ''A'', abstract = ''deep nets parsing'',
      sentences = [''deep nets'', ''parsing''], url = ''a''\<rparr>"

definition paper_b :: article where
  "paper_b =
     \<lparr>created = ''2024-01-03'', title = ''B'', abstract = ''intro'',
      sentences = [''intro''], url = ''b''\<rparr>"

definition paper_c :: article where
  "paper_c =
     \<lparr>created = ''2024-01-02'', title = ''C'', abstract = ''parsing'',
      sentences = [''parsing''], url = ''c''\<rparr>"

text \<open>
  A site with one section, a classifier that gives every sentence to it, and a record of
  fifty sentences: it fills the quota of the section alone.
\<close>

definition one_label :: "string list" where
  "one_label = [''cs.CL'']"

definition one_threshold :: "string \<rightharpoonup> real" where
  "one_threshold = [''cs.CL'' \<mapsto> 0.5]"

definition keen_model :: "string list \<Rightarrow> pred list" where
  "keen_model sents = map (\<lambda>sent. [(''cs.CL'', 0.9)]) sents"

definition paper_long :: article where
  "paper_long =
     \<lparr>created = ''2024-01-04'', title = ''L'', abstract = ''fifty sentences'',
      sentences = replicate 50 ''parsing'', url = ''l''\<rparr>"

text \<open>An annotation folder in which one sentence is judged for two labels.\<close>

definition two_labels :: "string list" where
  "two_labels = [''cs.CL'', ''cs.LG'']"

definition row_cl :: dict where
  "row_cl = [(''text'', JStr ''We parse.''), (''label'', JStr ''cs.CL''), (''answer'', JStr ''accept'')]"

definition row_lg :: dict where
  "row_lg = [(''text'', JStr ''We parse.''), (''label'', JStr ''cs.LG''), (''answer'', JStr ''reject'')]"

definition two_files :: "string \<rightharpoonup> dict list" where
  "two_files = [''cs.CL.jsonl'' \<mapsto> [row_cl], ''cs.LG.jsonl'' \<mapsto> [row_lg]]"

text \<open>
  Judgments of two sentences; the first sentence is judged twice for one label. And a
  judgment whose label is the string \<^verbatim>\<open>text\<close>.
\<close>

definition judgments :: "annotation list" where
  "judgments =
     [\<lparr>a_text = ''We parse.'', a_label = ''cs.CL'', a_answer = ''accept''\<rparr>,
      \<lparr>a_text = ''We train.'', a_label = ''cs.CL'', a_answer = ''reject''\<rparr>,
      \<lparr>a_text = ''We parse.'', a_label = ''cs.LG'', a_answer = ''reject''\<rparr>,
      \<lparr>a_text = ''We parse.'', a_label = ''cs.CL'', a_answer = ''reject''\<rparr>,
      \<lparr>a_text = ''We train.'', a_label = ''cs.LG'', a_answer = ''ignore''\<rparr>]"

definition text_judgment :: annotation where
  "text_judgment = \<lparr>a_text = ''We parse.'', a_label = ''text'', a_answer = ''accept''\<rparr>"



section \<open>Properties of the deduplicator\<close>

lemma dedup_from_index:
  "dedup_from seen xs key =
     map ((!) xs)
       (filter (\<lambda>i. key (xs ! i) \<notin> set seen \<union> key ` set (take i xs)) [0..<length xs])"
proof (induction xs arbitrary: seen)
  case Nil
  then show ?case by simp
next
  case (Cons x xs)
  have upt: "[0..<length (x # xs)] = 0 # map Suc [0..<length xs]"
    by (simp add: upt_conv_Cons map_Suc_upt del: upt_Suc)
  show ?case
    unfolding upt
    apply (simp add: Cons.IH filter_map comp_def)
    apply (intro conjI impI arg_cong[where f="map ((!) xs)"] filter_cong refl)
     apply auto
    done
qed

lemma dedup_from_keys: "key ` set (dedup_from seen xs key) = key ` set xs - set seen"
  by (induction seen xs key rule: dedup_from.induct) auto

lemma dedup_from_distinct: "distinct (map key (dedup_from seen xs key))"
  by (induction seen xs key rule: dedup_from.induct) (auto simp: dedup_from_keys)

lemma dedup_from_subset: "set (dedup_from seen xs key) \<subseteq> set xs"
  by (induction seen xs key rule: dedup_from.induct) auto

lemma dedup_stream_distinct: "distinct (map key (dedup_stream xs key))"
  by (simp add: dedup_stream_def dedup_from_distinct)

lemma dedup_stream_keys: "key ` set (dedup_stream xs key) = key ` set xs"
  by (simp add: dedup_stream_def dedup_from_keys)

lemma filter_key_single:
  "distinct (map f xs) \<Longrightarrow> x \<in> set xs \<Longrightarrow> filter (\<lambda>y. f y = f x) xs = [x]"
proof (induction xs)
  case Nil
  then show ?case by simp
next
  case (Cons a xs)
  show ?case
  proof (cases "a = x")
    case True
    from Cons.prems True have "f x \<notin> f ` set xs" by simp
    then have "filter (\<lambda>y. f y = f x) xs = []"
      unfolding filter_empty_conv by (metis imageI)
    with True show ?thesis by simp
  next
    case False
    with Cons.prems have "x \<in> set xs" "f a \<noteq> f x" by auto
    with Cons show ?thesis by simp
  qed
qed

lemma dedup_from_newest:
  "sorted_wrt (\<lambda>a b. created b \<le> created a) xs \<Longrightarrow> k \<in> set (dedup_from seen xs key) \<Longrightarrow>
   r \<in> set xs \<Longrightarrow> key r = key k \<Longrightarrow> created r \<le> created k"
proof (induction xs arbitrary: seen)
  case Nil
  then show ?case by simp
next
  case (Cons x xs)
  have notseen: "key k \<notin> set seen"
    using Cons.prems(2) dedup_from_keys [of key seen "x # xs"] by blast
  show ?case
  proof (cases "key x \<in> set seen")
    case True
    with Cons.prems notseen have "r \<in> set xs" "k \<in> set (dedup_from seen xs key)" by auto
    with Cons show ?thesis by simp
  next
    case False
    show ?thesis
    proof (cases "k = x")
      case True
      with Cons.prems(1,3) show ?thesis by auto
    next
      case kx: False
      with False Cons.prems(2) have k: "k \<in> set (dedup_from (key x # seen) xs key)" by simp
      then have "key k \<noteq> key x"
        using dedup_from_keys [of key "key x # seen" xs] by auto
      with Cons.prems have "r \<in> set xs" by auto
      with Cons k show ?thesis by simp
    qed
  qed
qed

text \<open>
  Claim C6. The deduplicator emits the record at position \<open>i\<close> exactly when its key value
  is the key value of no earlier record, and the emitted records stand in the order of the
  input. For a newest-first stream, every record \<open>r\<close> of the input is represented in the
  output by exactly one record with its abstract, and that record is at least as recent as
  \<open>r\<close>: of two records with one abstract only the more recent one is kept.
\<close>

theorem dedup_stream_first_seen:
  "dedup_stream stream key =
     map ((!) stream)
       (filter (\<lambda>i. key (stream ! i) \<notin> key ` set (take i stream)) [0..<length stream])
   \<and> (newest_first raw \<longrightarrow> r \<in> set raw \<longrightarrow>
        (\<exists>k. filter (\<lambda>x. abstract x = abstract r) (dedup_stream raw abstract) = [k]
             \<and> created r \<le> created k))"
proof (intro conjI impI)
  show "dedup_stream stream key =
     map ((!) stream)
       (filter (\<lambda>i. key (stream ! i) \<notin> key ` set (take i stream)) [0..<length stream])"
    by (simp add: dedup_stream_def dedup_from_index)
next
  assume nf: "newest_first raw" and r: "r \<in> set raw"
  from r have "abstract r \<in> abstract ` set (dedup_stream raw abstract)"
    by (simp add: dedup_stream_keys)
  then obtain k where k: "k \<in> set (dedup_stream raw abstract)" "abstract k = abstract r"
    by auto
  have one: "filter (\<lambda>x. abstract x = abstract r) (dedup_stream raw abstract) = [k]"
    using filter_key_single [of abstract "dedup_stream raw abstract" k] k dedup_stream_distinct [of abstract raw]
    by simp
  have "created r \<le> created k"
    using dedup_from_newest [of raw k "[]" abstract r] nf k r
    by (simp add: newest_first_def dedup_stream_def)
  with one show "\<exists>k. filter (\<lambda>x. abstract x = abstract r) (dedup_stream raw abstract) = [k]
             \<and> created r \<le> created k"
    by blast
qed

theorem dedup_stream_first_seen_witness:
  "newest_first [paper_x_new, paper_x_old] \<and> paper_x_old \<in> set [paper_x_new, paper_x_old]
   \<and> dedup_stream [paper_x_new, paper_x_old] abstract = [paper_x_new]
   \<and> (\<exists>k. filter (\<lambda>x. abstract x = abstract paper_x_old) (dedup_stream [paper_x_new, paper_x_old] abstract) = [k]
           \<and> created paper_x_old \<le> created k)"
  using dedup_stream_first_seen [of "[paper_x_new, paper_x_old]" abstract "[paper_x_new, paper_x_old]" paper_x_old]
  by (simp add: newest_first_def dedup_stream_def paper_x_old_def paper_x_new_def)

section \<open>Properties of nesting and of the archive writer\<close>

lemma map_fst_nest_add:
  "map fst (nest_add k row groups) =
     (if k \<in> fst ` set groups then map fst groups else map fst groups @ [k])"
  by (induction k row groups rule: nest_add.induct) auto

lemma map_of_nest_add:
  "map_of (nest_add k row groups) k' =
     (if k' = k then Some (case map_of groups k of None \<Rightarrow> [row] | Some rows \<Rightarrow> rows @ [row])
      else map_of groups k')"
  by (induction k row groups rule: nest_add.induct) auto

lemma distinct_nest_add:
  "distinct (map fst groups) \<Longrightarrow> distinct (map fst (nest_add k row groups))"
  by (simp add: map_fst_nest_add)

lemma nest_fold_distinct:
  "distinct (map fst groups) \<Longrightarrow>
   distinct (map fst (foldl (\<lambda>groups ex. nest_add (key ex) (rest ex) groups) groups xs))"
  by (induction xs arbitrary: groups) (simp_all add: distinct_nest_add)

lemma nest_fold_map_of:
  "map_of (foldl (\<lambda>groups ex. nest_add (key ex) (rest ex) groups) groups xs) k =
     (case map_of groups k of
        None \<Rightarrow> if k \<in> key ` set xs then Some (map rest (filter (\<lambda>x. key x = k) xs)) else None
      | Some rows \<Rightarrow> Some (rows @ map rest (filter (\<lambda>x. key x = k) xs)))"
proof (induction xs arbitrary: groups)
  case Nil
  then show ?case by (simp split: option.splits)
next
  case (Cons x xs)
  show ?case
    by (auto simp: Cons.IH map_of_nest_add split: option.splits)
qed

lemma nest_by_distinct: "distinct (map fst (nest_by key rest xs))"
  by (simp add: nest_by_def nest_fold_distinct)

lemma nest_by_map_of:
  "map_of (nest_by key rest xs) k =
     (if k \<in> key ` set xs then Some (map rest (filter (\<lambda>x. key x = k) xs)) else None)"
  by (simp add: nest_by_def nest_fold_map_of)

lemma nest_by_groups:
  "(k, rows) \<in> set (nest_by key rest xs) \<longleftrightarrow>
     k \<in> key ` set xs \<and> rows = map rest (filter (\<lambda>x. key x = k) xs)"
proof -
  have "(k, rows) \<in> set (nest_by key rest xs) \<longleftrightarrow> map_of (nest_by key rest xs) k = Some rows"
    using map_of_eq_Some_iff [OF nest_by_distinct, of key rest xs k rows] by simp
  then show ?thesis
    by (auto simp: nest_by_map_of split: if_splits)
qed

lemma write_fold_add:
  "foldl (\<lambda>fs (day, rows). write_jsonl dumps (name day) (body day rows) fs) fs groups =
   fs ++ foldl (\<lambda>fs (day, rows). write_jsonl dumps (name day) (body day rows) fs) Map.empty groups"
proof (induction groups rule: rev_induct)
  case Nil
  then show ?case by simp
next
  case (snoc g groups)
  obtain d r where g: "g = (d, r)" by (cases g)
  show ?case
    unfolding foldl_append g
    by (subst snoc.IH) (simp add: write_jsonl_def)
qed

lemma write_fold_at:
  "distinct (map fst groups) \<Longrightarrow> inj name \<Longrightarrow> (day, rows) \<in> set groups \<Longrightarrow>
   foldl (\<lambda>fs (day, rows). write_jsonl dumps (name day) (body day rows) fs) fs groups (name day)
     = Some (jsonl dumps (body day rows))"
proof (induction groups rule: rev_induct)
  case Nil
  then show ?case by simp
next
  case (snoc g groups)
  obtain d r where g: "g = (d, r)" by (cases g)
  show ?case
  proof (cases "(day, rows) = g")
    case True
    then show ?thesis by (auto simp: write_jsonl_def)
  next
    case False
    with snoc.prems g have mem: "(day, rows) \<in> set groups" and "d \<noteq> day"
      by (auto simp: image_iff)
    with snoc.prems have "name d \<noteq> name day" by (auto dest: injD)
    with snoc mem g show ?thesis by (simp add: write_jsonl_def)
  qed
qed

lemma write_fold_other:
  "p \<notin> name ` fst ` set groups \<Longrightarrow>
   foldl (\<lambda>fs (day, rows). write_jsonl dumps (name day) (body day rows) fs) fs groups p = fs p"
  by (induction groups rule: rev_induct) (auto simp: write_jsonl_def split: prod.splits)

lemma map_add_twice: "(m ++ n) ++ n = m ++ n"
  by (rule ext) (simp add: map_add_def split: option.splits)


lemma with_created_drop_created: "with_created (drop_created d) day = d\<lparr>created := day\<rparr>"
  by (simp add: with_created_def drop_created_def)

lemma save_clean_download_stream_add:
  "save_clean_download_stream dumps raw clean =
     clean ++ save_clean_download_stream dumps raw Map.empty"
  unfolding save_clean_download_stream_def Let_def
  by (rule write_fold_add [where name = "\<lambda>day. day @ ''.jsonl''"
        and body = "\<lambda>day rows. map (\<lambda>ex. with_created ex day) rows"])

lemma save_clean_download_stream_day:
  assumes "ex \<in> set (dedup_stream raw abstract)"
  shows "save_clean_download_stream dumps raw clean (take 10 (created ex) @ ''.jsonl'') =
     Some (jsonl dumps
       (map (\<lambda>e. e\<lparr>created := take 10 (created ex)\<rparr>)
          (filter (\<lambda>e. take 10 (created e) = take 10 (created ex))
             (dedup_stream raw abstract))))"
proof -
  let ?day = "take 10 (created ex)"
  let ?stream = "map (\<lambda>d. d\<lparr>created := take 10 (created d)\<rparr>) (dedup_stream raw abstract)"
  let ?rows = "map drop_created (filter (\<lambda>x. created x = ?day) ?stream)"
  have "?day \<in> created ` set ?stream"
    using assms by (force simp: image_iff)
  then have mem: "(?day, ?rows) \<in> set (nest_by created drop_created ?stream)"
    by (simp add: nest_by_groups)
  have inj: "inj (\<lambda>day :: string. day @ ''.jsonl'')"
    by (simp add: inj_on_def)
  have rows: "map (\<lambda>r. with_created r ?day) ?rows =
      map (\<lambda>e. e\<lparr>created := ?day\<rparr>)
        (filter (\<lambda>e. take 10 (created e) = ?day) (dedup_stream raw abstract))"
    by (simp add: filter_map comp_def with_created_drop_created)
  show ?thesis
    unfolding save_clean_download_stream_def Let_def
    using write_fold_at [OF nest_by_distinct inj mem,
        where body = "\<lambda>day rows. map (\<lambda>ex. with_created ex day) rows" and dumps = dumps and fs = clean]
    by (simp only: rows)
qed

text \<open>
  Claim C7. A second run of the archive writer over the same raw input leaves every file
  of the clean folder as the first run left it, byte for byte. Each run writes, for the
  day of every record of the deduplicated stream, the file of that day: the records of
  the deduplicated stream with that day prefix, in stream order, each with \<open>created\<close> set
  to the day, whatever the file held before.
\<close>

theorem save_clean_download_stream_idempotent:
  "save_clean_download_stream dumps raw (save_clean_download_stream dumps raw clean)
     = save_clean_download_stream dumps raw clean
   \<and> (\<forall>ex \<in> set (dedup_stream raw abstract).
        save_clean_download_stream dumps raw clean (take 10 (created ex) @ ''.jsonl'') =
          Some (jsonl dumps
            (map (\<lambda>e. e\<lparr>created := take 10 (created ex)\<rparr>)
               (filter (\<lambda>e. take 10 (created e) = take 10 (created ex))
                  (dedup_stream raw abstract)))))"
proof (intro conjI ballI)
  let ?written = "save_clean_download_stream dumps raw Map.empty"
  have once: "save_clean_download_stream dumps raw clean = clean ++ ?written"
    by (rule save_clean_download_stream_add)
  have "save_clean_download_stream dumps raw (save_clean_download_stream dumps raw clean)
      = save_clean_download_stream dumps raw clean ++ ?written"
    by (rule save_clean_download_stream_add)
  also have "\<dots> = (clean ++ ?written) ++ ?written"
    by (simp only: once [symmetric])
  also have "\<dots> = clean ++ ?written"
    by (rule map_add_twice)
  finally show "save_clean_download_stream dumps raw (save_clean_download_stream dumps raw clean)
     = save_clean_download_stream dumps raw clean"
    by (simp only: once [symmetric])
qed (rule save_clean_download_stream_day)



theorem save_clean_download_stream_idempotent_witness:
  "paper_y \<in> set (dedup_stream [paper_x_new, paper_y, paper_x_old] abstract)
   \<and> save_clean_download_stream title_and_date [paper_x_new, paper_y, paper_x_old]
        [''2024-01-02.jsonl'' \<mapsto> ''stale''] ''2024-01-02.jsonl''
       = Some (''X 2024-01-02'' @ [CHR 0x0A] @ ''Y 2024-01-02'' @ [CHR 0x0A])"
  using save_clean_download_stream_idempotent
    [of title_and_date "[paper_x_new, paper_y, paper_x_old]" "[''2024-01-02.jsonl'' \<mapsto> ''stale'']"]
  by (simp add: dedup_stream_def paper_x_new_def paper_x_old_def paper_y_def title_and_date_def jsonl_def)

section \<open>Properties of section assignment\<close>

lemma qualifies_iff:
  "qualifies T ps l \<longleftrightarrow>
     (\<exists>p \<in> set ps. \<exists>proba threshold. (l, proba) \<in> set p \<and> T l = Some threshold \<and> threshold < proba)"
  by (auto simp: qualifies_def list_ex_iff split: option.splits)

lemma secs_at_upd:
  "secs_at (st\<lparr>tracker := t, sections_of := (sections_of st)(i \<mapsto> secs), yielded := y\<rparr>) j =
     (if j = i then set secs else secs_at st j)"
  by (simp add: secs_at_def)

lemma finite_holders:
  assumes "finite (dom (sections_of st))"
  shows "finite {i. l \<in> secs_at st i}"
proof (rule finite_subset)
  show "{i. l \<in> secs_at st i} \<subseteq> dom (sections_of st)"
    by (auto simp: secs_at_def split: option.splits)
qed (rule assms)

lemma visit_maintained:
  assumes inv: "maintained L T whole st"
    and pos: "i < length whole" "whole ! i = ex"
    and item: "item \<in> set p" "p \<in> set (preds ex)"
    and step: "visit T i ex item st = Inr st'"
  shows "maintained L T whole st'"
proof -
  obtain name proba where it: "item = (name, proba)" by (cases item)
  show ?thesis
  proof (cases "tracker st name")
    case None
    with step it inv show ?thesis by (simp add: visit_def)
  next
    case (Some count)
    then obtain threshold where th: "T name = Some threshold"
      using step it by (auto simp: visit_def split: option.splits)
    show ?thesis
    proof (cases "proba > threshold \<and> count < limit")
      case False
      with step it Some th inv show ?thesis by (auto simp: visit_def)
    next
      case True
      let ?old = "case sections_of st i of None \<Rightarrow> [] | Some secs \<Rightarrow> secs"
      have st': "st' = st\<lparr>tracker := (tracker st)(name \<mapsto> count + 1),
                        sections_of := (sections_of st)(i \<mapsto> remdups (?old @ [name])),
                        yielded := yielded st @ [(i, ex)]\<rparr>"
        using step it Some th True by (simp add: visit_def)
      have at: "secs_at st' j = (if j = i then insert name (secs_at st i) else secs_at st j)" for j
        unfolding st' secs_at_upd by (auto simp: secs_at_def split: option.splits)
      have fin: "finite {j. l \<in> secs_at st j}" for l
        using inv by (intro finite_holders) (simp add: maintained_def)
      have name: "name \<in> set L"
        using inv Some by (auto simp: maintained_def)
      have q: "qualifies T (preds (whole ! i)) name"
        using item th True pos it by (auto simp: qualifies_iff)
      have counts: "count' \<le> limit \<and> card {j. l \<in> secs_at st' j} \<le> count'"
        if "tracker st' l = Some count'" for l count'
      proof (cases "l = name")
        case True
        with that have c: "count' = count + 1" by (simp add: st')
        have "{j. name \<in> secs_at st' j} = insert i {j. name \<in> secs_at st j}"
          by (auto simp: at)
        then have "card {j. name \<in> secs_at st' j} \<le> Suc (card {j. name \<in> secs_at st j})"
          using fin [of name] by (simp add: card_insert_if)
        moreover have "card {j. name \<in> secs_at st j} \<le> count"
          using inv Some by (simp add: maintained_def)
        ultimately show ?thesis
          using c \<open>l = name\<close> \<open>proba > threshold \<and> count < limit\<close> by simp
      next
        case False
        with that have old: "tracker st l = Some count'" by (simp add: st')
        have "{j. l \<in> secs_at st' j} = {j. l \<in> secs_at st j}"
          using False by (auto simp: at)
        with inv old show ?thesis by (simp add: maintained_def)
      qed
      have secs: "l \<in> set L \<and> j < length whole \<and> qualifies T (preds (whole ! j)) l"
        if "l \<in> secs_at st' j" for j l
        using that inv name q pos by (auto simp: at maintained_def split: if_splits)
      have yl: "j < length whole \<and> whole ! j = e \<and> sections_of st' j \<noteq> None"
        if "(j, e) \<in> set (yielded st')" for j e
        using that inv pos by (auto simp: st' maintained_def)
      have dom: "dom (tracker st') = set L"
        using inv Some by (auto simp: st' maintained_def)
      have findom: "finite (dom (sections_of st'))"
        using inv by (simp add: st' maintained_def)
      show ?thesis
        unfolding maintained_def
        using dom findom counts secs yl by blast
    qed
  qed
qed


lemma scan_items_maintained:
  "maintained L T whole st \<Longrightarrow> i < length whole \<Longrightarrow> whole ! i = ex \<Longrightarrow>
   set items \<subseteq> set p \<Longrightarrow> p \<in> set (preds ex) \<Longrightarrow>
   scan_items T i ex items st = Inr st' \<Longrightarrow> maintained L T whole st'"
proof (induction items arbitrary: st)
  case Nil
  then show ?case by simp
next
  case (Cons item items)
  from Cons.prems(6) obtain st1 where
    v: "visit T i ex item st = Inr st1" and rest: "scan_items T i ex items st1 = Inr st'"
    by (auto split: sum.splits)
  have "maintained L T whole st1"
    using visit_maintained [OF Cons.prems(1,2,3) _ Cons.prems(5) v] Cons.prems(4) by simp
  with Cons rest show ?case by simp
qed

lemma scan_preds_maintained:
  "maintained L T whole st \<Longrightarrow> i < length whole \<Longrightarrow> whole ! i = ex \<Longrightarrow>
   set ps \<subseteq> set (preds ex) \<Longrightarrow>
   scan_preds T i ex ps st = Inr st' \<Longrightarrow> maintained L T whole st'"
proof (induction ps arbitrary: st)
  case Nil
  then show ?case by simp
next
  case (Cons p ps)
  from Cons.prems(5) obtain st1 where
    v: "scan_items T i ex p st = Inr st1" and rest: "scan_preds T i ex ps st1 = Inr st'"
    by (auto split: sum.splits)
  have "maintained L T whole st1"
    using scan_items_maintained [OF Cons.prems(1,2,3) _ _ v, of p] Cons.prems(4) by simp
  with Cons rest show ?case by simp
qed

lemma maintained_taken [simp]:
  "maintained L T whole (st\<lparr>taken := ps\<rparr>) = maintained L T whole st"
  by (simp add: maintained_def secs_at_def)

lemma upper_limit_loop_maintained:
  "maintained L T (before @ stream) st \<Longrightarrow>
   upper_limit_loop L T (length before) stream st = Inr st' \<Longrightarrow>
   maintained L T (before @ stream) st'"
proof (induction stream arbitrary: before st)
  case Nil
  then show ?case by simp
next
  case (Cons ex stream)
  let ?st = "st\<lparr>taken := taken st @ [length before]\<rparr>"
  from Cons.prems(2) obtain st1 where
    v: "scan_preds T (length before) ex (preds ex) ?st = Inr st1"
    by (auto split: sum.splits)
  have "maintained L T (before @ ex # stream) ?st"
    using Cons.prems(1) by simp
  from scan_preds_maintained [OF this _ _ _ v]
  have m1: "maintained L T (before @ ex # stream) st1"
    by simp
  show ?case
  proof (cases "all_full L st1")
    case True
    with Cons.prems(2) v m1 show ?thesis by simp
  next
    case False
    with Cons.prems(2) v have
      "upper_limit_loop L T (length (before @ [ex])) stream st1 = Inr st'" by simp
    with Cons.IH [of "before @ [ex]" st1] m1 show ?thesis by simp
  qed
qed

lemma start_maintained: "maintained L T whole (start L)"
  by (auto simp: maintained_def start_def secs_at_def limit_def split: if_splits)

lemma upper_limit_run_maintained:
  "upper_limit_run L T stream = Inr st \<Longrightarrow> maintained L T stream st"
  using upper_limit_loop_maintained [of L T "[]" stream "start L" st] start_maintained
  by (simp add: upper_limit_run_def)

lemma upper_limit_Inr:
  "upper_limit L T stream = Inr out \<longleftrightarrow>
     (\<exists>st. upper_limit_run L T stream = Inr st \<and> out = map (collected st) (yielded st))"
  by (auto simp: upper_limit_def split: sum.splits)

lemma sections_collected:
  "set (sections (snd (collected st (i, ex)))) = secs_at st i"
  by (simp add: collected_def secs_at_def split: option.splits)

lemma carrying_subset:
  "set (carrying l (map (collected st) (yielded st))) \<subseteq> {i. l \<in> secs_at st i}"
proof
  fix i
  assume "i \<in> set (carrying l (map (collected st) (yielded st)))"
  then obtain ex where "l \<in> set (sections (snd (collected st (i, ex))))"
    by (force simp: carrying_def collected_def)
  then show "i \<in> {i. l \<in> secs_at st i}"
    by (simp add: sections_collected)
qed

lemma carrying_le:
  assumes "maintained L T whole st"
  shows "length (carrying l (map (collected st) (yielded st))) \<le> card {i. l \<in> secs_at st i}"
proof -
  have fin: "finite {i. l \<in> secs_at st i}"
    using assms by (intro finite_holders) (simp add: maintained_def)
  have "length (carrying l (map (collected st) (yielded st)))
      = card (set (carrying l (map (collected st) (yielded st))))"
    by (simp add: carrying_def length_remdups_card_conv)
  also have "\<dots> \<le> card {i. l \<in> secs_at st i}"
    by (rule card_mono [OF fin carrying_subset])
  finally show ?thesis .
qed

lemma no_holders:
  assumes "maintained L T whole st" "l \<notin> set L"
  shows "{i. l \<in> secs_at st i} = {}"
  using assms by (auto simp: maintained_def)

text \<open>
  Claim C1. When \<^verbatim>\<open>get_site_stream\<close> returns, the records that carry a label \<open>l\<close> in
  their \<^verbatim>\<open>sections\<close>, each record of the stream counted once, are at most 50, for every
  stream, classifier and label. The run ends with the counter of a label at no less than
  the number of records that carry the label and at no more than 50: the counter grows
  only below the limit, and each record of the section has cost it one increment.
\<close>

theorem quota_bound:
  assumes "get_site_stream LABELS THRESHOLDS model clean = Inr out"
  shows "length (carrying l out) \<le> 50
    \<and> (\<exists>st. upper_limit_run LABELS THRESHOLDS (add_predictions model (take 1000 clean)) = Inr st
          \<and> (\<forall>count. tracker st l = Some count \<longrightarrow>
                length (carrying l out) \<le> count \<and> count \<le> 50))"
proof -
  let ?whole = "add_predictions model (take 1000 clean)"
  from assms obtain st where
    run: "upper_limit_run LABELS THRESHOLDS ?whole = Inr st"
    and out: "out = map (collected st) (yielded st)"
    by (auto simp: get_site_stream_def upper_limit_Inr)
  have inv: "maintained LABELS THRESHOLDS ?whole st"
    by (rule upper_limit_run_maintained [OF run])
  have le: "length (carrying l out) \<le> card {i. l \<in> secs_at st i}"
    unfolding out by (rule carrying_le [OF inv])
  have counted: "length (carrying l out) \<le> count \<and> count \<le> 50"
    if "tracker st l = Some count" for count
    using inv that le by (fastforce simp: maintained_def limit_def)
  have "length (carrying l out) \<le> 50"
  proof (cases "tracker st l")
    case None
    with inv have "l \<notin> set LABELS" by (auto simp: maintained_def)
    with no_holders [OF inv] le show ?thesis by simp
  next
    case (Some count)
    with counted show ?thesis by fastforce
  qed
  with run counted show ?thesis by blast
qed



lemmas run_defs =
  get_site_stream_def upper_limit_def upper_limit_run_def add_predictions_def start_def
  visit_def limit_def all_full_def collected_def carrying_def
  toy_labels_def toy_thresholds_def toy_model_def paper_a_def paper_b_def paper_c_def

lemma toy_run:
  "map_sum id (map (\<lambda>(i, it). (i, title it, sections it)))
     (get_site_stream toy_labels toy_thresholds toy_model [paper_a, paper_b, paper_c])
   = Inr [(0, ''A'', [''cs.LG'', ''cs.CL'']), (0, ''A'', [''cs.LG'', ''cs.CL'']),
          (0, ''A'', [''cs.LG'', ''cs.CL'']), (2, ''C'', [''cs.CL''])]"
  by (simp add: run_defs)

theorem quota_bound_witness:
  "(\<exists>out. get_site_stream toy_labels toy_thresholds toy_model [paper_a, paper_b, paper_c] = Inr out
      \<and> carrying ''cs.CL'' out = [0, 2] \<and> length (carrying ''cs.CL'' out) \<le> 50)"
proof -
  obtain out where
    out: "get_site_stream toy_labels toy_thresholds toy_model [paper_a, paper_b, paper_c] = Inr out"
    and c: "carrying ''cs.CL'' out = [0, 2]"
    by (simp add: run_defs)
  from quota_bound [OF out, of "''cs.CL''"] out c show ?thesis by simp
qed


lemma collected_fields:
  "preds (snd (collected st (i, ex))) = preds ex"
  "fst (collected st (i, ex)) = i"
  "article.truncate (snd (collected st (i, ex))) = article.truncate ex"
  by (simp_all add: collected_def article.truncate_def)

lemma out_entry:
  assumes "maintained L T whole st" "(i, it) \<in> set (map (collected st) (yielded st))"
  shows "i < length whole \<and> it = snd (collected st (i, whole ! i))
         \<and> set (sections it) = secs_at st i"
proof -
  from assms(2) obtain j ex where
    y: "(j, ex) \<in> set (yielded st)" and c: "(i, it) = collected st (j, ex)"
    by auto
  from c have ij: "i = j" by (simp add: collected_def)
  from assms(1) y have "j < length whole \<and> whole ! j = ex"
    by (auto simp: maintained_def)
  with c ij show ?thesis
    by (metis sections_collected snd_conv)
qed

text \<open>
  Claim C2. A record that \<^verbatim>\<open>get_site_stream\<close> returns carries a label in its
  \<^verbatim>\<open>sections\<close> only if one of its per-sentence predictions gives the label a probability
  strictly above the threshold of the label; a probability equal to the threshold is not
  above it.
\<close>

theorem threshold_gate:
  assumes "get_site_stream LABELS THRESHOLDS model clean = Inr out"
    and "(i, it) \<in> set out" and "l \<in> set (sections it)"
  shows "\<exists>p \<in> set (preds it). \<exists>proba threshold.
           (l, proba) \<in> set p \<and> THRESHOLDS l = Some threshold \<and> threshold < proba"
proof -
  let ?whole = "add_predictions model (take 1000 clean)"
  from assms(1) obtain st where
    run: "upper_limit_run LABELS THRESHOLDS ?whole = Inr st"
    and out: "out = map (collected st) (yielded st)"
    by (auto simp: get_site_stream_def upper_limit_Inr)
  have inv: "maintained LABELS THRESHOLDS ?whole st"
    by (rule upper_limit_run_maintained [OF run])
  from out_entry [OF inv, of i it] assms(2) out have
    it: "it = snd (collected st (i, ?whole ! i))" and secs: "set (sections it) = secs_at st i"
    by blast+
  from secs assms(3) inv have "qualifies THRESHOLDS (preds (?whole ! i)) l"
    by (simp add: maintained_def)
  moreover have "preds it = preds (?whole ! i)"
    by (subst it) (rule collected_fields)
  ultimately show ?thesis
    by (simp add: qualifies_iff)
qed

theorem threshold_gate_witness:
  "\<exists>out it. get_site_stream toy_labels toy_thresholds toy_model [paper_a, paper_b, paper_c] = Inr out
      \<and> (2, it) \<in> set out \<and> ''cs.CL'' \<in> set (sections it)
      \<and> (\<exists>p \<in> set (preds it). \<exists>proba threshold.
           (''cs.CL'', proba) \<in> set p \<and> toy_thresholds ''cs.CL'' = Some threshold
           \<and> threshold < proba)"
proof -
  obtain out it where
    out: "get_site_stream toy_labels toy_thresholds toy_model [paper_a, paper_b, paper_c] = Inr out"
    and it: "(2, it) \<in> set out" "''cs.CL'' \<in> set (sections it)"
    by (simp add: run_defs)
  from threshold_gate [OF out it] out it show ?thesis by blast
qed

lemma nth_add_predictions:
  "i < length stream \<Longrightarrow> article.truncate (add_predictions model stream ! i) = stream ! i"
  by (simp add: add_predictions_def article.truncate_def)

text \<open>
  Claim C9. \<^verbatim>\<open>get_site_stream\<close> depends on the first 1000 records of the clean stream
  only, and every record it returns is one of them: its position is below 1000 and its
  article is the record of the clean stream at that position.
\<close>

theorem head_1000:
  "get_site_stream LABELS THRESHOLDS model clean
     = get_site_stream LABELS THRESHOLDS model (take 1000 clean)
   \<and> (get_site_stream LABELS THRESHOLDS model clean = Inr out \<longrightarrow> (i, it) \<in> set out \<longrightarrow>
        i < 1000 \<and> i < length clean \<and> article.truncate it = clean ! i)"
proof (rule conjI)
  show "get_site_stream LABELS THRESHOLDS model clean
     = get_site_stream LABELS THRESHOLDS model (take 1000 clean)"
    by (simp add: get_site_stream_def)
next
  let ?whole = "add_predictions model (take 1000 clean)"
  have "i < 1000 \<and> i < length clean \<and> article.truncate it = clean ! i"
    if res: "get_site_stream LABELS THRESHOLDS model clean = Inr out" and mem: "(i, it) \<in> set out"
  proof -
    from res obtain st where
      run: "upper_limit_run LABELS THRESHOLDS ?whole = Inr st"
      and out: "out = map (collected st) (yielded st)"
      by (auto simp: get_site_stream_def upper_limit_Inr)
    have inv: "maintained LABELS THRESHOLDS ?whole st"
      by (rule upper_limit_run_maintained [OF run])
    from out_entry [OF inv, of i it] mem out have
      i: "i < length ?whole" and it: "it = snd (collected st (i, ?whole ! i))"
      by blast+
    from i have bound: "i < 1000" "i < length clean"
      by (simp_all add: add_predictions_def)
    have "article.truncate it = article.truncate (?whole ! i)"
      by (subst it) (rule collected_fields)
    also have "\<dots> = take 1000 clean ! i"
      using i by (intro nth_add_predictions) (simp add: add_predictions_def)
    also have "\<dots> = clean ! i"
      using bound by simp
    finally show ?thesis
      using bound by simp
  qed
  then show "get_site_stream LABELS THRESHOLDS model clean = Inr out \<longrightarrow> (i, it) \<in> set out \<longrightarrow>
        i < 1000 \<and> i < length clean \<and> article.truncate it = clean ! i"
    by blast
qed

theorem head_1000_witness:
  "\<exists>out it. get_site_stream toy_labels toy_thresholds toy_model [paper_a, paper_b, paper_c] = Inr out
      \<and> (2, it) \<in> set out \<and> article.truncate it = paper_c"
proof -
  obtain out it where
    out: "get_site_stream toy_labels toy_thresholds toy_model [paper_a, paper_b, paper_c] = Inr out"
    and it: "(2, it) \<in> set out"
    by (simp add: run_defs)
  from head_1000 [of toy_labels toy_thresholds toy_model "[paper_a, paper_b, paper_c]" out 2 it]
    out it show ?thesis by auto
qed


subsection \<open>The early stop\<close>

lemma upper_limit_loop_stops:
  "upper_limit_loop L T i (xs @ [x]) st0 = Inr st \<Longrightarrow> all_full L st \<Longrightarrow>
   upper_limit_loop L T i (xs @ x # ys) st0 = Inr st"
proof (induction xs arbitrary: i st0)
  case Nil
  then show ?case by (auto split: sum.splits if_splits)
next
  case (Cons a xs)
  from Cons.prems(1) obtain st1 where
    a: "scan_preds T i a (preds a) (st0\<lparr>taken := taken st0 @ [i]\<rparr>) = Inr st1"
    by (auto split: sum.splits)
  show ?case
  proof (cases "all_full L st1")
    case True
    with a Cons.prems(1) show ?thesis by simp
  next
    case False
    with a Cons.prems(1) have "upper_limit_loop L T (Suc i) (xs @ [x]) st1 = Inr st" by simp
    from Cons.IH [OF this Cons.prems(2)] a False show ?thesis by simp
  qed
qed

lemma visit_taken: "visit T i ex item st = Inr st' \<Longrightarrow> taken st' = taken st"
  by (auto simp: visit_def split: prod.splits option.splits if_splits)

lemma scan_items_taken: "scan_items T i ex items st = Inr st' \<Longrightarrow> taken st' = taken st"
proof (induction items arbitrary: st)
  case Nil
  then show ?case by simp
next
  case (Cons item items)
  from Cons.prems obtain st1 where
    v: "visit T i ex item st = Inr st1" and rest: "scan_items T i ex items st1 = Inr st'"
    by (auto split: sum.splits)
  from Cons.IH [OF rest] visit_taken [OF v] show ?case by simp
qed

lemma scan_preds_taken: "scan_preds T i ex ps st = Inr st' \<Longrightarrow> taken st' = taken st"
proof (induction ps arbitrary: st)
  case Nil
  then show ?case by simp
next
  case (Cons p ps)
  from Cons.prems obtain st1 where
    v: "scan_items T i ex p st = Inr st1" and rest: "scan_preds T i ex ps st1 = Inr st'"
    by (auto split: sum.splits)
  from Cons.IH [OF rest] scan_items_taken [OF v] show ?case by simp
qed

text \<open>The loop takes the records in order, and it leaves records in the stream only
  when the counters are full.\<close>

lemma upper_limit_loop_taken:
  "upper_limit_loop L T i stream st = Inr st' \<Longrightarrow>
   \<exists>n \<le> length stream. taken st' = taken st @ [i..<i + n] \<and> (n < length stream \<longrightarrow> all_full L st')"
proof (induction stream arbitrary: i st)
  case Nil
  then show ?case by simp
next
  case (Cons ex stream)
  from Cons.prems obtain st1 where
    v: "scan_preds T i ex (preds ex) (st\<lparr>taken := taken st @ [i]\<rparr>) = Inr st1"
    by (auto split: sum.splits)
  have t1: "taken st1 = taken st @ [i]"
    using scan_preds_taken [OF v] by simp
  show ?case
  proof (cases "all_full L st1")
    case True
    with Cons.prems v have "st' = st1" by simp
    with t1 True have
      "1 \<le> length (ex # stream) \<and> taken st' = taken st @ [i..<i + 1]
       \<and> (1 < length (ex # stream) \<longrightarrow> all_full L st')"
      by simp
    then show ?thesis by blast
  next
    case False
    with Cons.prems v have "upper_limit_loop L T (Suc i) stream st1 = Inr st'" by simp
    from Cons.IH [OF this] obtain n where
      n: "n \<le> length stream" "taken st' = taken st1 @ [Suc i..<Suc i + n]"
         "n < length stream \<longrightarrow> all_full L st'"
      by blast
    have "[i..<i + Suc n] = i # [Suc i..<Suc i + n]"
      by (simp add: upt_conv_Cons del: upt_Suc)
    with n t1 have
      "Suc n \<le> length (ex # stream) \<and> taken st' = taken st @ [i..<i + Suc n]
       \<and> (Suc n < length (ex # stream) \<longrightarrow> all_full L st')"
      by simp
    then show ?thesis by blast
  qed
qed

lemma upper_limit_run_taken:
  assumes "upper_limit_run L T stream = Inr st"
  shows "\<exists>n \<le> length stream. taken st = [0..<n] \<and> (n < length stream \<longrightarrow> all_full L st)"
  using upper_limit_loop_taken [of L T 0 stream "start L" st] assms
  by (simp add: upper_limit_run_def start_def)

text \<open>
  Claim C3. Once the processing of a record \<open>x\<close> ends with every counter at the quota,
  the loop stops: whatever records \<open>ys\<close> follow \<open>x\<close> in the stream, the run over the
  longer stream ends in the state it has after \<open>x\<close>. In that state every position taken
  from the stream and every position yielded is a position up to \<open>x\<close>: no record of
  \<open>ys\<close> is taken from the stream, none is scanned and none is yielded, and
  \<^verbatim>\<open>upper_limit\<close> returns what it returns for the stream cut after \<open>x\<close>.
\<close>

theorem stops_when_full:
  assumes "upper_limit_run LABELS THRESHOLDS (xs @ [x]) = Inr st" and "all_full LABELS st"
  shows "upper_limit_run LABELS THRESHOLDS (xs @ x # ys) = Inr st
       \<and> (\<forall>i \<in> set (taken st). i \<le> length xs)
       \<and> (\<forall>(i, ex) \<in> set (yielded st). i \<le> length xs)
       \<and> upper_limit LABELS THRESHOLDS (xs @ x # ys) = upper_limit LABELS THRESHOLDS (xs @ [x])"
proof -
  have run: "upper_limit_run LABELS THRESHOLDS (xs @ x # ys) = Inr st"
    using assms unfolding upper_limit_run_def by (rule upper_limit_loop_stops)
  from upper_limit_run_taken [OF assms(1)] obtain n where
    "n \<le> length (xs @ [x])" "taken st = [0..<n]"
    by blast
  then have tk: "\<forall>i \<in> set (taken st). i \<le> length xs"
    by auto
  have "maintained LABELS THRESHOLDS (xs @ [x]) st"
    by (rule upper_limit_run_maintained [OF assms(1)])
  then have yl: "\<forall>(i, ex) \<in> set (yielded st). i \<le> length xs"
    by (fastforce simp: maintained_def)
  from run assms(1) have
    "upper_limit LABELS THRESHOLDS (xs @ x # ys) = upper_limit LABELS THRESHOLDS (xs @ [x])"
    by (simp add: upper_limit_def)
  with run tk yl show ?thesis by blast
qed

lemma scan_preds_fill:
  assumes "T l = Some threshold" "threshold < proba"
  shows "tracker st l = Some count \<Longrightarrow> count + n \<le> limit \<Longrightarrow>
     \<exists>st'. scan_preds T i ex (replicate n [(l, proba)]) st = Inr st'
           \<and> tracker st' l = Some (count + n)"
proof (induction n arbitrary: st count)
  case 0
  then show ?case by simp
next
  case (Suc n)
  let ?st1 = "st\<lparr>tracker := (tracker st)(l \<mapsto> count + 1),
      sections_of := (sections_of st)(i \<mapsto>
         remdups ((case sections_of st i of None \<Rightarrow> [] | Some secs \<Rightarrow> secs) @ [l])),
      yielded := yielded st @ [(i, ex)]\<rparr>"
  have v: "visit T i ex (l, proba) st = Inr ?st1"
    using assms Suc.prems by (simp add: visit_def)
  have "tracker ?st1 l = Some (count + 1)" "count + 1 + n \<le> limit"
    using Suc.prems by simp_all
  from Suc.IH [OF this] v show ?case by simp
qed

theorem stops_when_full_witness:
  "\<exists>st. upper_limit_run one_label one_threshold (add_predictions keen_model [paper_long]) = Inr st
      \<and> all_full one_label st
      \<and> upper_limit_run one_label one_threshold (add_predictions keen_model [paper_long, paper_a])
          = Inr st
      \<and> taken st = [0]"
proof -
  let ?x = "\<lparr>created = created paper_long, title = title paper_long,
             abstract = abstract paper_long, sentences = sentences paper_long,
             url = url paper_long, preds = keen_model (sentences paper_long)\<rparr>"
  let ?st0 = "(start one_label)\<lparr>taken := taken (start one_label) @ [0]\<rparr>"
  have p: "preds ?x = replicate 50 [(''cs.CL'', 0.9)]"
    by (simp add: keen_model_def paper_long_def)
  have "\<exists>st'. scan_preds one_threshold 0 ?x (replicate 50 [(''cs.CL'', 0.9)]) ?st0 = Inr st'
           \<and> tracker st' ''cs.CL'' = Some (0 + 50)"
    by (rule scan_preds_fill [where threshold = "0.5"])
       (simp_all add: one_threshold_def one_label_def start_def limit_def)
  then obtain st where
    scan: "scan_preds one_threshold 0 ?x (preds ?x) ?st0 = Inr st"
    and full: "tracker st ''cs.CL'' = Some 50"
    unfolding p by auto
  have af: "all_full one_label st"
    using full by (simp add: all_full_def one_label_def limit_def)
  have tk: "taken st = [0]"
    using scan_preds_taken [OF scan] by (simp add: start_def)
  have run: "upper_limit_run one_label one_threshold ([] @ [?x]) = Inr st"
    using scan af by (simp add: upper_limit_run_def)
  from stops_when_full [OF run af, of "add_predictions keen_model [paper_a]"] run af tk
  show ?thesis
    by (auto simp: add_predictions_def)
qed


subsection \<open>Names that are no labels\<close>

lemma visit_unknown:
  "tracker st name = None \<Longrightarrow> visit T i ex (name, proba) st = Inr st"
  by (simp add: visit_def)

lemma visit_dom:
  "visit T i ex item st = Inr st' \<Longrightarrow> dom (tracker st') = dom (tracker st)"
  by (auto simp: visit_def split: prod.splits option.splits if_splits)

lemma visit_summary:
  "summary st = summary st' \<Longrightarrow>
   map_sum id summary (visit T i ex item st) = map_sum id summary (visit T i ex' item st')"
  by (auto simp: visit_def summary_def split: prod.splits option.splits)

lemma scan_items_dom:
  "scan_items T i ex items st = Inr st' \<Longrightarrow> dom (tracker st') = dom (tracker st)"
proof (induction items arbitrary: st)
  case Nil
  then show ?case by simp
next
  case (Cons item items)
  from Cons.prems obtain st1 where
    v: "visit T i ex item st = Inr st1" and rest: "scan_items T i ex items st1 = Inr st'"
    by (auto split: sum.splits)
  from Cons.IH [OF rest] visit_dom [OF v] show ?case by simp
qed

lemma scan_preds_dom:
  "scan_preds T i ex ps st = Inr st' \<Longrightarrow> dom (tracker st') = dom (tracker st)"
proof (induction ps arbitrary: st)
  case Nil
  then show ?case by simp
next
  case (Cons p ps)
  from Cons.prems obtain st1 where
    v: "scan_items T i ex p st = Inr st1" and rest: "scan_preds T i ex ps st1 = Inr st'"
    by (auto split: sum.splits)
  from Cons.IH [OF rest] scan_items_dom [OF v] show ?case by simp
qed

lemma scan_items_strip:
  "summary st = summary st' \<Longrightarrow> dom (tracker st) \<subseteq> set L \<Longrightarrow>
   map_sum id summary (scan_items T i ex' (filter (\<lambda>(name, proba). name \<in> set L) items) st')
     = map_sum id summary (scan_items T i ex items st)"
proof (induction items arbitrary: st st')
  case Nil
  then show ?case by simp
next
  case (Cons item items)
  obtain name proba where item: "item = (name, proba)" by (cases item)
  show ?case
  proof (cases "name \<in> set L")
    case False
    with Cons.prems have "tracker st name = None" by auto
    with Cons item False show ?thesis by (simp add: visit_unknown)
  next
    case True
    note step = visit_summary [OF Cons.prems(1), of T i ex item ex']
    show ?thesis
    proof (cases "visit T i ex item st")
      case (Inl e)
      with step item True show ?thesis by (auto split: sum.splits)
    next
      case (Inr st1)
      with step obtain st1' where
        v': "visit T i ex' item st' = Inr st1'" and eq: "summary st1 = summary st1'"
        by (cases "visit T i ex' item st'") auto
      have "dom (tracker st1) \<subseteq> set L"
        using visit_dom [OF Inr] Cons.prems(2) by simp
      from Cons.IH [OF eq this] Inr v' item True show ?thesis by simp
    qed
  qed
qed

lemma scan_preds_strip:
  "summary st = summary st' \<Longrightarrow> dom (tracker st) \<subseteq> set L \<Longrightarrow>
   map_sum id summary
     (scan_preds T i ex' (map (filter (\<lambda>(name, proba). name \<in> set L)) ps) st')
     = map_sum id summary (scan_preds T i ex ps st)"
proof (induction ps arbitrary: st st')
  case Nil
  then show ?case by simp
next
  case (Cons p ps)
  note step = scan_items_strip [OF Cons.prems, of T i ex' p ex]
  show ?case
  proof (cases "scan_items T i ex p st")
    case (Inl e)
    with step show ?thesis by (auto split: sum.splits)
  next
    case (Inr st1)
    with step obtain st1' where
      v': "scan_items T i ex' (filter (\<lambda>(name, proba). name \<in> set L) p) st' = Inr st1'"
      and eq: "summary st1 = summary st1'"
      by (cases "scan_items T i ex' (filter (\<lambda>(name, proba). name \<in> set L) p) st'") auto
    have "dom (tracker st1) \<subseteq> set L"
      using scan_items_dom [OF Inr] Cons.prems(2) by simp
    from Cons.IH [OF eq this] Inr v' show ?thesis by simp
  qed
qed

lemma summary_taken:
  "summary st = summary st' \<Longrightarrow> summary (st\<lparr>taken := ps\<rparr>) = summary (st'\<lparr>taken := qs\<rparr>)"
  by (simp add: summary_def)

lemma all_full_summary: "summary st = summary st' \<Longrightarrow> all_full L st = all_full L st'"
  by (simp add: summary_def all_full_def)

lemma upper_limit_loop_strip:
  "summary st = summary st' \<Longrightarrow> dom (tracker st) \<subseteq> set L \<Longrightarrow>
   map_sum id summary (upper_limit_loop L T i (map (strip_unknown L) stream) st')
     = map_sum id summary (upper_limit_loop L T i stream st)"
proof (induction stream arbitrary: i st st')
  case Nil
  then show ?case by simp
next
  case (Cons ex stream)
  let ?st = "st\<lparr>taken := taken st @ [i]\<rparr>" and ?st' = "st'\<lparr>taken := taken st' @ [i]\<rparr>"
  have eq0: "summary ?st = summary ?st'"
    by (rule summary_taken [OF Cons.prems(1)])
  have dom0: "dom (tracker ?st) \<subseteq> set L"
    using Cons.prems(2) by simp
  note step = scan_preds_strip [OF eq0 dom0, of T i "strip_unknown L ex" "preds ex" ex]
  have p: "preds (strip_unknown L ex) = map (filter (\<lambda>(name, proba). name \<in> set L)) (preds ex)"
    by (simp add: strip_unknown_def)
  show ?case
  proof (cases "scan_preds T i ex (preds ex) ?st")
    case (Inl e)
    with step show ?thesis by (auto simp: p split: sum.splits)
  next
    case (Inr st1)
    with step obtain st1' where
      v': "scan_preds T i (strip_unknown L ex) (preds (strip_unknown L ex)) ?st' = Inr st1'"
      and eq: "summary st1 = summary st1'"
      unfolding p
      by (cases "scan_preds T i (strip_unknown L ex)
                   (map (filter (\<lambda>(name, proba). name \<in> set L)) (preds ex)) ?st'") auto
    have d: "dom (tracker st1) \<subseteq> set L"
      using scan_preds_dom [OF Inr] dom0 by simp
    from Cons.IH [OF eq d] Inr v' all_full_summary [OF eq, of L] eq show ?thesis by simp
  qed
qed

text \<open>
  Claim C10. Every label in the \<^verbatim>\<open>sections\<close> of a record that \<^verbatim>\<open>get_site_stream\<close> returns
  is one of \<^verbatim>\<open>LABELS\<close>. Predictions for names that are not in \<^verbatim>\<open>LABELS\<close> change nothing:
  the run over the stream without them ends with the same counters, the same sections
  and the same positions yielded, or with the same error.
\<close>

theorem sections_are_labels:
  "(get_site_stream LABELS THRESHOLDS model clean = Inr out \<longrightarrow>
      (\<forall>(i, it) \<in> set out. set (sections it) \<subseteq> set LABELS))
   \<and> map_sum id summary (upper_limit_run LABELS THRESHOLDS (map (strip_unknown LABELS) stream))
       = map_sum id summary (upper_limit_run LABELS THRESHOLDS stream)"
proof (rule conjI)
  let ?whole = "add_predictions model (take 1000 clean)"
  have "set (sections it) \<subseteq> set LABELS"
    if res: "get_site_stream LABELS THRESHOLDS model clean = Inr out" and mem: "(i, it) \<in> set out"
    for i it
  proof -
    from res obtain st where
      run: "upper_limit_run LABELS THRESHOLDS ?whole = Inr st"
      and out: "out = map (collected st) (yielded st)"
      by (auto simp: get_site_stream_def upper_limit_Inr)
    have inv: "maintained LABELS THRESHOLDS ?whole st"
      by (rule upper_limit_run_maintained [OF run])
    from out_entry [OF inv, of i it] mem out have "set (sections it) = secs_at st i"
      by blast
    with inv show ?thesis by (auto simp: maintained_def)
  qed
  then show "get_site_stream LABELS THRESHOLDS model clean = Inr out \<longrightarrow>
      (\<forall>(i, it) \<in> set out. set (sections it) \<subseteq> set LABELS)"
    by blast
next
  show "map_sum id summary (upper_limit_run LABELS THRESHOLDS (map (strip_unknown LABELS) stream))
       = map_sum id summary (upper_limit_run LABELS THRESHOLDS stream)"
    unfolding upper_limit_run_def
    by (rule upper_limit_loop_strip) (auto simp: start_def split: if_splits)
qed

theorem sections_are_labels_witness:
  "\<exists>out it. get_site_stream toy_labels toy_thresholds toy_model [paper_a, paper_b, paper_c] = Inr out
      \<and> (0, it) \<in> set out \<and> (''math'', 1) \<in> set (hd (preds it))
      \<and> set (sections it) \<subseteq> set toy_labels"
proof -
  obtain out it where
    out: "get_site_stream toy_labels toy_thresholds toy_model [paper_a, paper_b, paper_c] = Inr out"
    and it: "(0, it) \<in> set out" "(''math'', 1) \<in> set (hd (preds it))"
    by (simp add: run_defs)
  from sections_are_labels [of toy_labels toy_thresholds toy_model "[paper_a, paper_b, paper_c]" out]
    out it show ?thesis by blast
qed

section \<open>Properties of the training data\<close>

lemma nest_by_keys: "fst ` set (nest_by key rest xs) = key ` set xs"
proof
  show "fst ` set (nest_by key rest xs) \<subseteq> key ` set xs"
    using nest_by_groups [of _ _ key rest xs] by fastforce
  show "key ` set xs \<subseteq> fst ` set (nest_by key rest xs)"
  proof
    fix k
    assume "k \<in> key ` set xs"
    then have "(k, map rest (filter (\<lambda>x. key x = k) xs)) \<in> set (nest_by key rest xs)"
      by (simp add: nest_by_groups)
    then show "k \<in> fst ` set (nest_by key rest xs)"
      by (rule rev_image_eqI) simp
  qed
qed

lemma field_text_row [simp]: "field ''text'' ((''text'', t) # row) = t"
  by (simp add: field_def)

lemma accumulate_texts:
  "map (field ''text'') (accumulate_train_stream stream)
     = map fst (nest_by (field ''text'') (AList.delete ''text'') stream)"
  by (simp add: accumulate_train_stream_def comp_def split_def)

lemma accumulate_distinct: "distinct (map (field ''text'') (accumulate_train_stream stream))"
  by (simp only: accumulate_texts nest_by_distinct)

lemma accumulate_text_set:
  "set (map (field ''text'') (accumulate_train_stream stream)) = field ''text'' ` set stream"
  by (simp only: accumulate_texts set_map nest_by_keys)

lemma get_train_stream_from_concat:
  "get_train_stream_from examples labels annot = Inr out \<Longrightarrow>
   \<exists>files. map (\<lambda>label. annot (label @ ''.jsonl'')) labels = map Some files
         \<and> out = examples @ concat (map (map cats_shim) files)"
proof (induction labels arbitrary: examples)
  case Nil
  then show ?case by simp
next
  case (Cons label labels)
  from Cons.prems obtain rows where
    rows: "annot (label @ ''.jsonl'') = Some rows"
    and rest: "get_train_stream_from (examples @ map cats_shim rows) labels annot = Inr out"
    by (auto split: option.splits)
  from Cons.IH [OF rest] obtain files where
    "map (\<lambda>label. annot (label @ ''.jsonl'')) labels = map Some files"
    "out = (examples @ map cats_shim rows) @ concat (map (map cats_shim) files)"
    by blast
  with rows have
    "map (\<lambda>label. annot (label @ ''.jsonl'')) (label # labels) = map Some (rows # files)
     \<and> out = examples @ concat (map (map cats_shim) (rows # files))"
    by simp
  then show ?case by blast
qed


text \<open>
  Claim C4 as stated does not hold of \<^verbatim>\<open>get_train_stream\<close>: with one sentence in the
  annotation files of two labels, it returns two examples with the same \<^verbatim>\<open>text\<close>.
\<close>

theorem get_train_stream_repeats_text:
  "get_train_stream two_labels two_files = Inr [row_cl, row_lg]
   \<and> field ''text'' row_cl = field ''text'' row_lg
   \<and> \<not> distinct (map (field ''text'') [row_cl, row_lg])"
  by (simp add: get_train_stream_def two_labels_def two_files_def cats_shim_def
        row_cl_def row_lg_def)

text \<open>
  Claim C4, amended. \<^verbatim>\<open>_accumulate_train_stream\<close> returns one record for each distinct
  \<^verbatim>\<open>text\<close> of its input and no two of its records have the same \<^verbatim>\<open>text\<close>.
  \<^verbatim>\<open>get_train_stream\<close>, which the train operation calls, does not group: it returns the
  rows of the annotation files of the labels, file after file in the order of the labels,
  each row with \<^verbatim>\<open>categories\<close> set from \<^verbatim>\<open>cats\<close> where it has only the latter.
\<close>

theorem accumulate_one_per_text:
  "distinct (map (field ''text'') (accumulate_train_stream stream))
   \<and> set (map (field ''text'') (accumulate_train_stream stream)) = field ''text'' ` set stream
   \<and> (get_train_stream LABELS annot = Inr examples \<longrightarrow>
        (\<exists>files. map (\<lambda>label. annot (label @ ''.jsonl'')) LABELS = map Some files
                \<and> examples = concat (map (map cats_shim) files)))"
proof (intro conjI impI)
  show "distinct (map (field ''text'') (accumulate_train_stream stream))"
    by (rule accumulate_distinct)
  show "set (map (field ''text'') (accumulate_train_stream stream)) = field ''text'' ` set stream"
    by (rule accumulate_text_set)
next
  assume "get_train_stream LABELS annot = Inr examples"
  then show "\<exists>files. map (\<lambda>label. annot (label @ ''.jsonl'')) LABELS = map Some files
                \<and> examples = concat (map (map cats_shim) files)"
    using get_train_stream_from_concat [of "[]" LABELS annot examples]
    by (simp add: get_train_stream_def)
qed

theorem accumulate_one_per_text_witness:
  "get_train_stream two_labels two_files = Inr [row_cl, row_lg]
   \<and> (\<exists>files. map (\<lambda>label. two_files (label @ ''.jsonl'')) two_labels = map Some files
          \<and> [row_cl, row_lg] = concat (map (map cats_shim) files))"
proof -
  have run: "get_train_stream two_labels two_files = Inr [row_cl, row_lg]"
    by (simp add: get_train_stream_def two_labels_def two_files_def cats_shim_def
          row_cl_def row_lg_def)
  from accumulate_one_per_text [of "[]" two_labels two_files "[row_cl, row_lg]"] run
  show ?thesis by blast
qed

subsection \<open>The accumulator\<close>

lemma outcome_of_eq:
  "outcome_of answer =
     (if answer = ''reject'' then Some 0 else if answer = ''accept'' then Some 1 else None)"
  by (simp add: outcome_of_def)

lemma format_ignore:
  "sentence_data_to_train_format (filter (\<lambda>ex. a_answer ex \<noteq> ''ignore'') stream)
     = sentence_data_to_train_format stream"
  by (induction stream) (simp_all add: outcome_of_eq)

lemma format_rows:
  assumes "\<forall>ex \<in> set stream. a_label ex \<noteq> ''text''"
  shows "sentence_data_to_train_format stream =
     map (\<lambda>ex. [(''text'', JStr (a_text ex)),
                 (a_label ex, JNum (if a_answer ex = ''accept'' then 1 else 0))])
       (filter (\<lambda>ex. a_answer ex = ''accept'' \<or> a_answer ex = ''reject'') stream)"
  using assms by (induction stream) (auto simp: outcome_of_eq)

lemma merge_map_of:
  "map_of (foldl (\<lambda>d (k, v). AList.update k v d) d0 kvs) l =
     (case filter (\<lambda>(k, v). k = l) kvs of
        [] \<Rightarrow> map_of d0 l
      | js \<Rightarrow> Some (snd (last js)))"
proof (induction kvs rule: rev_induct)
  case Nil
  then show ?case by simp
next
  case (snoc kv kvs)
  obtain k v where kv: "kv = (k, v)" by (cases kv)
  show ?case
    using snoc by (auto simp: kv update_conv' split: list.splits)
qed

lemma merge_distinct:
  "distinct (map fst d0) \<Longrightarrow>
   distinct (map fst (foldl (\<lambda>d (k, v). AList.update k v d) d0 kvs))"
  by (induction kvs arbitrary: d0) (auto simp: distinct_update)

lemma merge_keys:
  "fst ` set (foldl (\<lambda>d (k, v). AList.update k v d) d0 kvs) = fst ` set d0 \<union> fst ` set kvs"
proof (induction kvs arbitrary: d0)
  case Nil
  then show ?case by simp
next
  case (Cons kv kvs)
  obtain k v where kv: "kv = (k, v)" by (cases kv)
  have "fst ` set (AList.update k v d0) = insert k (fst ` set d0)"
    using dom_update [of k v d0] by (simp add: dom_map_of_conv_image_fst)
  with Cons kv show ?case by auto
qed


lemma case_last_map:
  assumes "js \<noteq> []"
  shows "(case map g js of [] \<Rightarrow> d | ys \<Rightarrow> Some (snd (last ys))) = Some (snd (g (last js)))"
proof -
  from assms obtain y ys where m: "map g js = y # ys"
    by (cases js) auto
  have "last (map g js) = g (last js)"
    using assms by (rule last_map)
  then have "last (y # ys) = g (last js)"
    by (simp only: m)
  then show ?thesis
    by (simp only: m list.case)
qed

lemma accumulate_groups:
  assumes labels: "\<forall>ex \<in> set stream. a_label ex \<noteq> ''text''"
    and e: "e \<in> set (accumulate_train_stream (sentence_data_to_train_format stream))"
  shows "\<exists>t cats. e = [(''text'', JStr t), (''categories'', JObj cats)]
           \<and> distinct (map fst cats) \<and> fst ` set cats \<subseteq> a_label ` set stream
           \<and> (\<forall>l. map_of cats l = map_option JNum (last_outcome stream t l))"
proof -
  let ?kept = "filter (\<lambda>ex. a_answer ex = ''accept'' \<or> a_answer ex = ''reject'') stream"
  let ?val = "\<lambda>ex. JNum (if a_answer ex = ''accept'' then 1 else 0)"
  let ?row = "\<lambda>ex. [(''text'', JStr (a_text ex)), (a_label ex, ?val ex)]"
  have rows: "sentence_data_to_train_format stream = map ?row ?kept"
    by (rule format_rows [OF labels])
  from e obtain k rs where
    grp: "(k, rs) \<in> set (nest_by (field ''text'') (AList.delete ''text'') (map ?row ?kept))"
    and e_eq: "e = [(''text'', k), (''categories'', JObj (merge_rows rs))]"
    unfolding accumulate_train_stream_def rows by auto
  from grp have k_in: "k \<in> field ''text'' ` set (map ?row ?kept)"
    and rs_eq: "rs = map (AList.delete ''text'') (filter (\<lambda>x. field ''text'' x = k) (map ?row ?kept))"
    by (simp_all only: nest_by_groups)
  from k_in have "\<exists>a. a \<in> set ?kept \<and> k = JStr (a_text a)"
    by (auto simp: image_iff)
  then obtain a where a: "a \<in> set ?kept" and k: "k = JStr (a_text a)"
    by blast
  let ?t = "a_text a"
  let ?same = "filter (\<lambda>ex. a_text ex = ?t) ?kept"
  have del: "AList.delete ''text'' (?row ex) = [(a_label ex, ?val ex)]" if "ex \<in> set stream" for ex
    using labels that by (auto simp: AList.delete_eq)
  have "rs = map (\<lambda>ex. AList.delete ''text'' (?row ex)) ?same"
    unfolding rs_eq k by (simp add: filter_map comp_def)
  also have "\<dots> = map (\<lambda>ex. [(a_label ex, ?val ex)]) ?same"
    by (rule map_cong) (use labels in auto)
  finally have rs: "rs = map (\<lambda>ex. [(a_label ex, ?val ex)]) ?same" .
  have cc: "concat rs = map (\<lambda>ex. (a_label ex, ?val ex)) ?same"
    unfolding rs by (induction ?same) auto
  let ?cats = "merge_rows rs"
  have cats: "?cats = foldl (\<lambda>d (k, v). AList.update k v d) [] (map (\<lambda>ex. (a_label ex, ?val ex)) ?same)"
    by (simp add: merge_rows_def cc)
  have dist: "distinct (map fst ?cats)"
    unfolding cats by (rule merge_distinct) simp
  have keys: "fst ` set ?cats \<subseteq> a_label ` set stream"
    unfolding cats merge_keys by auto
  have look: "map_of ?cats l = map_option JNum (last_outcome stream ?t l)" for l
  proof -
    let ?judged = "filter (\<lambda>ex. a_text ex = ?t \<and> a_label ex = l
                         \<and> (a_answer ex = ''accept'' \<or> a_answer ex = ''reject'')) stream"
    have f: "filter (\<lambda>(k, v). k = l) (map (\<lambda>ex. (a_label ex, ?val ex)) ?same)
        = map (\<lambda>ex. (a_label ex, ?val ex)) ?judged"
      by (simp add: filter_map comp_def conj_commute conj_left_commute cong: conj_cong)
    show ?thesis
    proof (cases ?judged)
      case Nil
      then show ?thesis
        unfolding cats merge_map_of f by (simp add: last_outcome_def)
    next
      case (Cons j js)
      then have ne: "?judged \<noteq> []" by simp
      have "map_of ?cats l = Some (?val (last ?judged))"
        unfolding cats merge_map_of f
        by (subst case_last_map [OF ne]) simp
      moreover have "last_outcome stream ?t l
          = Some (if a_answer (last ?judged) = ''accept'' then 1 else 0)"
        using ne by (simp add: last_outcome_def split: list.splits)
      ultimately show ?thesis by simp
    qed
  qed
  from e_eq k dist keys look show ?thesis by blast
qed



text \<open>
  Claim C5. Accumulation should give, for each text, the \<^verbatim>\<open>categories\<close> that hold the
  label-to-outcome pairs observed for that text, the later value winning. The code misses
  this for an annotation whose label is the string \<^verbatim>\<open>text\<close>: in the dict display
  \<^verbatim>\<open>{"text": ex["text"], ex["label"]: outcome}\<close> the outcome replaces the text, the row
  is \<^verbatim>\<open>{"text": 1}\<close>, and the output is one record with the text \<^verbatim>\<open>1\<close> and empty
  \<^verbatim>\<open>categories\<close>, where the pair observed for the text of the annotation is the outcome 1
  for that label.
\<close>

theorem accumulate_label_text:
  "accumulate_train_stream (sentence_data_to_train_format [text_judgment])
     = [[(''text'', JNum 1), (''categories'', JObj [])]]
   \<and> last_outcome [text_judgment] ''We parse.'' ''text'' = Some 1"
  by (simp add: text_judgment_def outcome_of_eq accumulate_train_stream_def nest_by_def
        merge_rows_def field_def last_outcome_def)

text \<open>
  Away from that collision the accumulator does what the spec (4.4) describes. For every
  annotation stream in which no label is the string \<^verbatim>\<open>text\<close>: the records with answer
  \<^verbatim>\<open>ignore\<close> change nothing; the output has one
  record for each text that has an \<^verbatim>\<open>accept\<close> or \<^verbatim>\<open>reject\<close> answer and no other; each
  output record is a \<^verbatim>\<open>text\<close> with its \<^verbatim>\<open>categories\<close>; the keys of the categories are
  labels of the stream, each once, and the value of a label is the outcome of the last
  annotation of that text and label, 1 for \<^verbatim>\<open>accept\<close> and 0 for \<^verbatim>\<open>reject\<close>.
\<close>

theorem accumulate_last_write_wins:
  assumes "\<forall>ex \<in> set stream. a_label ex \<noteq> ''text''"
  shows "sentence_data_to_train_format (filter (\<lambda>ex. a_answer ex \<noteq> ''ignore'') stream)
       = sentence_data_to_train_format stream
   \<and> distinct (map (field ''text'')
        (accumulate_train_stream (sentence_data_to_train_format stream)))
   \<and> set (map (field ''text'') (accumulate_train_stream (sentence_data_to_train_format stream)))
       = (\<lambda>ex. JStr (a_text ex)) `
           {ex \<in> set stream. a_answer ex = ''accept'' \<or> a_answer ex = ''reject''}
   \<and> (\<forall>e \<in> set (accumulate_train_stream (sentence_data_to_train_format stream)).
        \<exists>t cats. e = [(''text'', JStr t), (''categories'', JObj cats)]
           \<and> distinct (map fst cats) \<and> fst ` set cats \<subseteq> a_label ` set stream
           \<and> (\<forall>l. map_of cats l = map_option JNum (last_outcome stream t l)))"
proof (intro conjI ballI)
  show "sentence_data_to_train_format (filter (\<lambda>ex. a_answer ex \<noteq> ''ignore'') stream)
       = sentence_data_to_train_format stream"
    by (rule format_ignore)
  show "distinct (map (field ''text'')
        (accumulate_train_stream (sentence_data_to_train_format stream)))"
    by (rule accumulate_distinct)
  show "set (map (field ''text'') (accumulate_train_stream (sentence_data_to_train_format stream)))
       = (\<lambda>ex. JStr (a_text ex)) `
           {ex \<in> set stream. a_answer ex = ''accept'' \<or> a_answer ex = ''reject''}"
    unfolding accumulate_text_set format_rows [OF assms]
    by (auto simp: image_iff)
next
  fix e
  assume "e \<in> set (accumulate_train_stream (sentence_data_to_train_format stream))"
  with assms show "\<exists>t cats. e = [(''text'', JStr t), (''categories'', JObj cats)]
           \<and> distinct (map fst cats) \<and> fst ` set cats \<subseteq> a_label ` set stream
           \<and> (\<forall>l. map_of cats l = map_option JNum (last_outcome stream t l))"
    by (rule accumulate_groups)
qed

theorem accumulate_last_write_wins_witness:
  "''text'' \<notin> a_label ` set judgments
   \<and> accumulate_train_stream (sentence_data_to_train_format judgments)
       = [[(''text'', JStr ''We parse.''),
           (''categories'', JObj [(''cs.CL'', JNum 0), (''cs.LG'', JNum 0)])],
          [(''text'', JStr ''We train.''), (''categories'', JObj [(''cs.CL'', JNum 0)])]]
   \<and> last_outcome judgments ''We parse.'' ''cs.CL'' = Some 0
   \<and> distinct (map (field ''text'')
        (accumulate_train_stream (sentence_data_to_train_format judgments)))"
proof -
  have labels: "\<forall>ex \<in> set judgments. a_label ex \<noteq> ''text''"
    by (simp add: judgments_def)
  have "accumulate_train_stream (sentence_data_to_train_format judgments)
       = [[(''text'', JStr ''We parse.''),
           (''categories'', JObj [(''cs.CL'', JNum 0), (''cs.LG'', JNum 0)])],
          [(''text'', JStr ''We train.''), (''categories'', JObj [(''cs.CL'', JNum 0)])]]"
    by (simp add: judgments_def outcome_of_eq accumulate_train_stream_def nest_by_def
          merge_rows_def field_def)
  moreover have "last_outcome judgments ''We parse.'' ''cs.CL'' = Some 0"
    by (simp add: judgments_def last_outcome_def)
  ultimately show ?thesis
    using accumulate_last_write_wins [OF labels] labels by auto
qed

section \<open>Properties of the content assembler\<close>






section \<open>Section assignment returns when every label has a threshold\<close>

lemma visit_returns:
  "dom (tracker st) \<subseteq> dom T \<Longrightarrow> \<exists>st'. visit T i ex item st = Inr st'"
  by (cases item) (auto simp: visit_def split: option.splits)

lemma scan_items_returns:
  "dom (tracker st) \<subseteq> dom T \<Longrightarrow> \<exists>st'. scan_items T i ex items st = Inr st'"
proof (induction items arbitrary: st)
  case Nil
  then show ?case by simp
next
  case (Cons item items)
  from visit_returns [OF Cons.prems] obtain st1 where v: "visit T i ex item st = Inr st1"
    by blast
  with Cons.prems have "dom (tracker st1) \<subseteq> dom T"
    by (simp add: visit_dom)
  from Cons.IH [OF this] v show ?case by simp
qed

lemma scan_preds_returns:
  "dom (tracker st) \<subseteq> dom T \<Longrightarrow> \<exists>st'. scan_preds T i ex ps st = Inr st'"
proof (induction ps arbitrary: st)
  case Nil
  then show ?case by simp
next
  case (Cons p ps)
  from scan_items_returns [OF Cons.prems] obtain st1 where
    v: "scan_items T i ex p st = Inr st1"
    by blast
  with Cons.prems have "dom (tracker st1) \<subseteq> dom T"
    by (simp add: scan_items_dom)
  from Cons.IH [OF this] v show ?case by simp
qed

lemma upper_limit_loop_returns:
  "dom (tracker st) \<subseteq> dom T \<Longrightarrow> \<exists>st'. upper_limit_loop L T i stream st = Inr st'"
proof (induction stream arbitrary: i st)
  case Nil
  then show ?case by simp
next
  case (Cons ex stream)
  let ?st = "st\<lparr>taken := taken st @ [i]\<rparr>"
  have "dom (tracker ?st) \<subseteq> dom T"
    using Cons.prems by simp
  from scan_preds_returns [OF this] obtain st1 where
    v: "scan_preds T i ex (preds ex) ?st = Inr st1"
    by blast
  with Cons.prems have "dom (tracker st1) \<subseteq> dom T"
    by (simp add: scan_preds_dom)
  from Cons.IH [OF this, of "Suc i"] v show ?case by simp
qed

lemma get_site_stream_returns:
  assumes "set LABELS \<subseteq> dom THRESHOLDS"
  shows "\<exists>out. get_site_stream LABELS THRESHOLDS model clean = Inr out"
proof -
  have "dom (tracker (start LABELS)) \<subseteq> dom THRESHOLDS"
    using assms by (auto simp: start_def split: if_splits)
  from upper_limit_loop_returns [OF this, of LABELS 0 "add_predictions model (take 1000 clean)"]
  obtain st where
    "upper_limit_loop LABELS THRESHOLDS 0 (add_predictions model (take 1000 clean)) (start LABELS)
       = Inr st"
    by blast
  then show ?thesis
    by (simp add: get_site_stream_def upper_limit_def upper_limit_run_def)
qed

end
